theory Spec2Isabelle
  imports Complex_Main
begin

section \<open>Strings\<close>

text \<open>
  A JavaScript string is a sequence of UTF-16 code units. A code unit is modelled by its
  numeric value, a string by the list of its code units. The regular expressions of
  \<^verbatim>\<open>app.js\<close> carry no \<^verbatim>\<open>u\<close> flag, so they too work on single code units.
\<close>

type_synonym codeunit = nat
type_synonym jsstring = "codeunit list"

definition js :: "string \<Rightarrow> jsstring" where
  "js = map of_char"

text \<open>The character class \<^verbatim>\<open>[a-zA-Z0-9]\<close>; its complement is \<^verbatim>\<open>[^a-zA-Z0-9]\<close>.\<close>

definition is_alnum :: "codeunit \<Rightarrow> bool" where
  "is_alnum c = ((97 \<le> c \<and> c \<le> 122) \<or> (65 \<le> c \<and> c \<le> 90) \<or> (48 \<le> c \<and> c \<le> 57))"

text \<open>
  The class \<^verbatim>\<open>\s\<close>, which is also the set of code units that \<^verbatim>\<open>String.prototype.trim\<close>
  removes (white space and line terminators of ECMAScript): TAB, LF, VT, FF, CR, SP, NBSP,
  U+1680, U+2000 to U+200A, U+2028, U+2029, U+202F, U+205F, U+3000 and U+FEFF.
\<close>

definition is_space :: "codeunit \<Rightarrow> bool" where
  "is_space c = ((9 \<le> c \<and> c \<le> 13) \<or> c = 32 \<or> c = 160 \<or> c = 5760 \<or>
     (8192 \<le> c \<and> c \<le> 8202) \<or> c = 8232 \<or> c = 8233 \<or> c = 8239 \<or> c = 8287 \<or>
     c = 12288 \<or> c = 65279)"

text \<open>\<^verbatim>\<open>s.trim()\<close>\<close>

definition trim :: "jsstring \<Rightarrow> jsstring" where
  "trim s = rev (dropWhile is_space (rev (dropWhile is_space s)))"

text \<open>
  \<^verbatim>\<open>s.substring(a, b)\<close>: both arguments are clamped to \<open>[0, length s]\<close> and swapped when
  the first exceeds the second. \<^verbatim>\<open>s.substring(a)\<close> is \<^verbatim>\<open>s.substring(a, s.length)\<close>.
  \<^verbatim>\<open>s.charAt(i)\<close> is the one-unit string at \<open>i\<close>, the empty string out of range.
\<close>

definition clampIndex :: "jsstring \<Rightarrow> int \<Rightarrow> nat" where
  "clampIndex s i = (if i < 0 then 0 else min (nat i) (length s))"

definition substring :: "jsstring \<Rightarrow> int \<Rightarrow> int \<Rightarrow> jsstring" where
  "substring s a b =
     (let a' = clampIndex s a; b' = clampIndex s b;
          lo = min a' b'; hi = max a' b'
      in take (hi - lo) (drop lo s))"

definition substringFrom :: "jsstring \<Rightarrow> int \<Rightarrow> jsstring" where
  "substringFrom s a = substring s a (int (length s))"

definition charAt :: "jsstring \<Rightarrow> int \<Rightarrow> jsstring" where
  "charAt s i = (if 0 \<le> i \<and> i < int (length s) then [s ! nat i] else [])"

section \<open>ORP calculation\<close>

text \<open>
  \<^verbatim>\<open>word.replace(/[^a-zA-Z0-9]/g, '')\<close> deletes every code unit outside the class.
\<close>

definition cleanWord :: "jsstring \<Rightarrow> jsstring" where
  "cleanWord word = filter is_alnum word"

text \<open>The chain of comparisons of \<^verbatim>\<open>calculateORP\<close>, in the order of the source.\<close>

definition orpIndex :: "int \<Rightarrow> int" where
  "orpIndex len =
     (if len \<le> 1 then 0
      else if len \<le> 2 then 0
      else if len \<le> 3 then 1
      else if len \<le> 5 then 1
      else if len \<le> 9 then 2
      else if len \<le> 13 then 3
      else 4)"

text \<open>
  The loop \<^verbatim>\<open>for (i = 0; i < word.length; i++)\<close> that counts code units outside the class
  and leaves at the first one inside it.
\<close>

fun leadingPunctuation :: "jsstring \<Rightarrow> int" where
  "leadingPunctuation [] = 0"
| "leadingPunctuation (c # cs) = (if \<not> is_alnum c then 1 + leadingPunctuation cs else 0)"

definition calculateORP :: "jsstring \<Rightarrow> int" where
  "calculateORP word = leadingPunctuation word + orpIndex (int (length (cleanWord word)))"

record orp_split =
  before :: jsstring
  focus :: jsstring
  after :: jsstring

definition splitWordAtORP :: "jsstring \<Rightarrow> orp_split" where
  "splitWordAtORP word =
     (let idx = calculateORP word
      in \<lparr> before = substring word 0 idx,
           focus = charAt word idx,
           after = substringFrom word (idx + 1) \<rparr>)"

section \<open>Text segmentation\<close>

text \<open>
  \<^verbatim>\<open>text.replace(/\r\n/g, '\n')\<close> and \<^verbatim>\<open>.replace(/\r/g, '\n')\<close>: CR is 13, LF is 10.
\<close>

fun replaceCRLF :: "jsstring \<Rightarrow> jsstring" where
  "replaceCRLF [] = []"
| "replaceCRLF [c] = [c]"
| "replaceCRLF (c # d # cs) =
     (if c = 13 \<and> d = 10 then 10 # replaceCRLF cs else c # replaceCRLF (d # cs))"

definition replaceCR :: "jsstring \<Rightarrow> jsstring" where
  "replaceCR s = map (\<lambda>c. if c = 13 then 10 else c) s"

text \<open>
  \<^verbatim>\<open>s.split(sep)\<close> for a separator of one code unit: the pieces between the separators,
  empty pieces included; the empty string gives one empty piece.
\<close>

fun splitOn :: "codeunit \<Rightarrow> jsstring \<Rightarrow> jsstring list" where
  "splitOn sep [] = [[]]"
| "splitOn sep (c # cs) =
     (if c = sep then [] # splitOn sep cs
      else (case splitOn sep cs of
              [] \<Rightarrow> [[c]]
            | l # ls \<Rightarrow> (c # l) # ls))"

text \<open>
  \<^verbatim>\<open>s.replace(/\s+/g, ' ')\<close>: every maximal run of white space becomes one space (32).
\<close>

function collapseSpaces :: "jsstring \<Rightarrow> jsstring" where
  "collapseSpaces [] = []"
| "collapseSpaces (c # cs) =
     (if is_space c then 32 # collapseSpaces (dropWhile is_space cs)
      else c # collapseSpaces cs)"
  by pat_completeness auto
termination
  by (relation "measure length") (auto simp: length_dropWhile_le less_Suc_eq_le)

definition extractWords :: "jsstring \<Rightarrow> jsstring list" where
  "extractWords text0 =
     (let t1 = map (\<lambda>c. if c = 10 then 32 else c) text0;
          t2 = collapseSpaces t1;
          t3 = trim t2
      in filter (\<lambda>word. length word > 0) (splitOn 32 t3))"

record paragraph_t =
  p_index :: int
  p_text :: jsstring
  p_words :: "jsstring list"
  startWordIndex :: int

text \<open>
  The \<^verbatim>\<open>forEach\<close> of \<^verbatim>\<open>parseText\<close> that stores the running sum \<^verbatim>\<open>absoluteIndex\<close> into each
  paragraph and then adds the paragraph's word count to it.
\<close>

fun assignStartIndices :: "int \<Rightarrow> paragraph_t list \<Rightarrow> paragraph_t list" where
  "assignStartIndices absoluteIndex [] = []"
| "assignStartIndices absoluteIndex (p # ps) =
     p\<lparr>startWordIndex := absoluteIndex\<rparr>
       # assignStartIndices (absoluteIndex + int (length (p_words p))) ps"

definition paragraphTexts :: "jsstring \<Rightarrow> jsstring list" where
  "paragraphTexts text0 =
     filter (\<lambda>p. length p > 0) (map trim (splitOn 10 (replaceCR (replaceCRLF text0))))"

definition makeParagraph :: "nat \<times> jsstring \<Rightarrow> paragraph_t" where
  "makeParagraph ip =
     \<lparr> p_index = int (fst ip), p_text = snd ip, p_words = extractWords (snd ip),
       startWordIndex = 0 \<rparr>"

text \<open>
  The values that \<^verbatim>\<open>parseText\<close> stores into \<^verbatim>\<open>this.paragraphs\<close> and \<^verbatim>\<open>this.words\<close>, and the
  boolean it returns.
\<close>

definition parsedParagraphs :: "jsstring \<Rightarrow> paragraph_t list" where
  "parsedParagraphs text0 =
     assignStartIndices 0 (map makeParagraph (enumerate 0 (paragraphTexts text0)))"

definition flattenWords :: "paragraph_t list \<Rightarrow> jsstring list" where
  "flattenWords ps = concat (map p_words ps)"

text \<open>The example of the specification: two lines, separated by a line feed.\<close>

definition exampleText :: jsstring where
  "exampleText = js ''Hello world.'' @ [10] @ js ''Second line here.''"

text \<open>A text of two paragraphs of two words each, and a text that starts with a sentence end.\<close>

definition twoParagraphs :: jsstring where
  "twoParagraphs = js ''a b'' @ [10] @ js ''c d''"

definition doneText :: jsstring where
  "doneText = js ''Done. x''"

subsection \<open>Splitting at sentence boundaries\<close>

text \<open>
  \<^verbatim>\<open>text.match(/[^.!?]+[.!?]+\s*/g)\<close>. The three classes of the pattern are runs: one or
  more code units that are no terminators, one or more terminators, then white space. A
  terminator is never white space and the first two classes are complements, so the
  greedy match at a position is the longest run of each and backtracking finds nothing
  else: a match starts at a position iff the code unit there is no terminator and the
  run of such units is followed by a terminator. The terminators are 46, 33 and 63. Where no match starts, the search moves
  on by one code unit; after a match it goes on behind it.
\<close>

definition is_terminator :: "codeunit \<Rightarrow> bool" where
  "is_terminator c = (c = 46 \<or> c = 33 \<or> c = 63)"

function matchSentences :: "jsstring \<Rightarrow> jsstring list" where
  "matchSentences [] = []"
| "matchSentences (c # cs) =
     (if is_terminator c then matchSentences cs
      else (let body = takeWhile (\<lambda>x. \<not> is_terminator x) (c # cs);
                r1 = dropWhile (\<lambda>x. \<not> is_terminator x) (c # cs)
            in if r1 = [] then matchSentences cs
               else (let marks = takeWhile is_terminator r1;
                         r2 = dropWhile is_terminator r1;
                         spaces = takeWhile is_space r2;
                         r3 = dropWhile is_space r2
                     in (body @ marks @ spaces) # matchSentences r3)))"
  by pat_completeness auto
termination
proof (relation "measure length")
  show "wf (measure length)" by simp
next
  fix c :: codeunit and cs :: jsstring
  show "(cs, c # cs) \<in> measure length" by simp
next
  fix c :: codeunit and cs :: jsstring
  show "(cs, c # cs) \<in> measure length" by simp
next
  fix c :: codeunit and cs x xa xb xc xd :: jsstring and xe :: jsstring
  assume c: "\<not> is_terminator c"
    and xa: "xa = dropWhile (\<lambda>x. \<not> is_terminator x) (c # cs)"
    and xc: "xc = dropWhile is_terminator xa"
    and xe: "xe = dropWhile is_space xc"
  have "length xe \<le> length xc" unfolding xe by (rule length_dropWhile_le)
  also have "\<dots> \<le> length xa" unfolding xc by (rule length_dropWhile_le)
  also have "\<dots> \<le> length cs" using c unfolding xa by (simp add: length_dropWhile_le)
  finally show "(xe, c # cs) \<in> measure length" by simp
qed

text \<open>
  \<^verbatim>\<open>s.split(/\s+/)\<close>: the pieces between the maximal runs of white space, empty pieces at
  either end included; a string without white space (the empty one too) is one piece.
\<close>

function splitSpaces :: "jsstring \<Rightarrow> jsstring list" where
  "splitSpaces s =
     (let piece = takeWhile (\<lambda>c. \<not> is_space c) s;
          r = dropWhile (\<lambda>c. \<not> is_space c) s
      in if r = [] then [piece] else piece # splitSpaces (dropWhile is_space r))"
  by pat_completeness auto
termination
proof (relation "measure length")
  show "wf (measure length)" by simp
next
  fix s x xa :: jsstring
  assume xa: "xa = dropWhile (\<lambda>c. \<not> is_space c) s" and ne: "xa \<noteq> []"
  from ne obtain y ys where ys: "xa = y # ys" by (cases xa) auto
  have "\<not> \<not> is_space (hd (dropWhile (\<lambda>c. \<not> is_space c) s))"
    using ne unfolding xa by (rule hd_dropWhile)
  then have "is_space y"
    using ys xa by (metis list.sel(1))
  then have "length (dropWhile is_space xa) \<le> length ys"
    using ys by (simp add: length_dropWhile_le)
  also have "\<dots> < length xa" using ys by simp
  also have "\<dots> \<le> length s" unfolding xa by (rule length_dropWhile_le)
  finally show "(dropWhile is_space xa, s) \<in> measure length" by simp
qed

declare splitSpaces.simps [simp del]

text \<open>
  The loop state of \<^verbatim>\<open>intelligentSplit\<close>: the paragraphs pushed so far, \<^verbatim>\<open>currentParagraph\<close>
  and \<^verbatim>\<open>wordCount\<close>; one step is the body of its \<^verbatim>\<open>forEach\<close>. The empty string is falsy.
\<close>

definition targetWordsPerParagraph :: int where
  "targetWordsPerParagraph = 75"

definition splitStep ::
  "jsstring list \<times> jsstring \<times> int \<Rightarrow> jsstring \<Rightarrow> jsstring list \<times> jsstring \<times> int" where
  "splitStep st sentence =
     (case st of (ps, currentParagraph, wordCount) \<Rightarrow>
        let sentenceWords = int (length (splitSpaces (trim sentence)))
        in if wordCount + sentenceWords > targetWordsPerParagraph \<and> currentParagraph \<noteq> []
           then (ps @ [trim currentParagraph], sentence, sentenceWords)
           else (ps, currentParagraph @ sentence, wordCount + sentenceWords))"

definition sentencesOf :: "jsstring \<Rightarrow> jsstring list" where
  "sentencesOf text0 = (if matchSentences text0 = [] then [text0] else matchSentences text0)"

definition intelligentSplit :: "jsstring \<Rightarrow> jsstring list" where
  "intelligentSplit text0 =
     (case foldl splitStep ([], [], 0) (sentencesOf text0) of
        (ps, currentParagraph, wordCount) \<Rightarrow>
          let ps1 = (if trim currentParagraph \<noteq> [] then ps @ [trim currentParagraph] else ps)
          in if length ps1 > 0 then ps1 else [text0])"

section \<open>The application state\<close>

text \<open>
  The fields of \<^verbatim>\<open>FastyApp\<close>, and the part of its environment that the program reads back
  or that the properties below speak of: the value of the text area, the three text nodes
  of the word display, the status line (its message, its \<^verbatim>\<open>paragraph-break\<close> class and its
  \<^verbatim>\<open>hidden\<close> class) and the pending timers of the event loop. The numbers of JavaScript
  that hold indices are integers here. CSS classes of the container, the word counter,
  the progress bar and the centring of the word are layout only; they are never read back
  and are left out.
\<close>

datatype status_message =
    PasteAndClick      \<comment> \<open>Paste text and click here or press Space\<close>
  | ClickToStart       \<comment> \<open>Click here or press Space to start\<close>
  | PasteAndPress      \<comment> \<open>Paste text and press Space to start\<close>
  | PausedContinue     \<comment> \<open>Paused, press Space to continue\<close>
  | EndOfParagraph     \<comment> \<open>End of paragraph, press Space to continue\<close>
  | DoneRestart        \<comment> \<open>Done, edit text or press Space to restart\<close>

text \<open>
  The two kinds of function handed to \<^verbatim>\<open>setTimeout\<close> by \<^verbatim>\<open>scheduleNextWord\<close>: the one that
  blanks the display and chains the sentence pause, and the one that advances (used both
  for the normal timing and for the chained sentence pause).
\<close>

datatype callback = ClearThenWait | Advance

record timer =
  timerId :: nat
  delay :: rat
  callback :: callback

record app =
  words :: "jsstring list"
  paragraphs :: "paragraph_t list"
  currentWordIndex :: int
  currentParagraphIndex :: int
  isPlaying :: bool
  isPaused :: bool
  hasStarted :: bool
  wpm :: int
  sentencePause :: int
  intervalId :: "nat option"
  sentencePauseTimeoutId :: "nat option"
  textInput :: jsstring
  display :: orp_split
  statusText :: status_message
  statusBreak :: bool
  statusHidden :: bool
  timers :: "timer list"
  nextTimerId :: nat

text \<open>
  A handler either returns or throws a \<^verbatim>\<open>TypeError\<close> (a property read on \<^verbatim>\<open>undefined\<close>);
  the fields written before the throw stay written, so both outcomes carry the state.
\<close>

datatype outcome = Returned app | Threw app

fun state_of :: "outcome \<Rightarrow> app" where
  "state_of (Returned s) = s"
| "state_of (Threw s) = s"

fun and_then :: "outcome \<Rightarrow> (app \<Rightarrow> outcome) \<Rightarrow> outcome" where
  "and_then (Returned s) f = f s"
| "and_then (Threw s) f = Threw s"

text \<open>\<^verbatim>\<open>xs[i]\<close> on an array: \<^verbatim>\<open>undefined\<close> (here \<open>None\<close>) outside \<open>0 .. length - 1\<close>.\<close>

definition at_index :: "'a list \<Rightarrow> int \<Rightarrow> 'a option" where
  "at_index xs i = (if 0 \<le> i \<and> i < int (length xs) then Some (xs ! nat i) else None)"

subsection \<open>Timers of the event loop\<close>

text \<open>
  \<^verbatim>\<open>setTimeout\<close> returns a fresh positive handle and adds the timer to the pending ones;
  \<^verbatim>\<open>clearTimeout\<close> removes the timer with that handle, if it is still pending.
\<close>

definition setTimeout :: "callback \<Rightarrow> rat \<Rightarrow> app \<Rightarrow> nat \<times> app" where
  "setTimeout cb d s =
     (nextTimerId s,
      s\<lparr>timers := timers s @ [\<lparr>timerId = nextTimerId s, delay = d, callback = cb\<rparr>],
        nextTimerId := nextTimerId s + 1\<rparr>)"

definition clearTimeout :: "nat \<Rightarrow> app \<Rightarrow> app" where
  "clearTimeout i s = s\<lparr>timers := filter (\<lambda>t. timerId t \<noteq> i) (timers s)\<rparr>"

subsection \<open>Status line and display\<close>

definition updateStatus :: "status_message \<Rightarrow> bool \<Rightarrow> app \<Rightarrow> app" where
  "updateStatus msg brk s = s\<lparr>statusText := msg, statusBreak := brk, statusHidden := False\<rparr>"

definition hideStatus :: "app \<Rightarrow> app" where
  "hideStatus s = s\<lparr>statusHidden := True\<rparr>"

definition blank :: orp_split where
  "blank = \<lparr>before = [], focus = [], after = []\<rparr>"

definition clearWordDisplay :: "app \<Rightarrow> app" where
  "clearWordDisplay s = s\<lparr>display := blank\<rparr>"

text \<open>
  \<^verbatim>\<open>displayCurrentWord\<close>: with a negative index the guard passes, \<^verbatim>\<open>words[i]\<close> is
  \<^verbatim>\<open>undefined\<close> and \<^verbatim>\<open>calculateORP\<close> throws on \<^verbatim>\<open>undefined.replace\<close>.
\<close>

definition displayCurrentWord :: "app \<Rightarrow> outcome" where
  "displayCurrentWord s =
     (if currentWordIndex s \<ge> int (length (words s)) then Returned s
      else (case at_index (words s) (currentWordIndex s) of
              None \<Rightarrow> Threw s
            | Some word \<Rightarrow> Returned (s\<lparr>display := splitWordAtORP word\<rparr>)))"

definition showParagraphBreak :: "app \<Rightarrow> app" where
  "showParagraphBreak s = updateStatus EndOfParagraph True s"

definition showEndOfText :: "app \<Rightarrow> app" where
  "showEndOfText s = updateStatus DoneRestart True s"

subsection \<open>Reading control\<close>

text \<open>
  \<^verbatim>\<open>parseText\<close> stores the paragraphs and the flattened words and returns whether there
  is a word.
\<close>

definition parseText :: "jsstring \<Rightarrow> app \<Rightarrow> bool \<times> app" where
  "parseText text0 s =
     (let ps = parsedParagraphs text0;
          s1 = s\<lparr>paragraphs := ps\<rparr>;
          s2 = s1\<lparr>words := flattenWords (paragraphs s1)\<rparr>
      in (length (words s2) > 0, s2))"

text \<open>
  \<^verbatim>\<open>pause\<close>: a handle is truthy when it is set and not zero.
\<close>

definition pause :: "app \<Rightarrow> app" where
  "pause s =
     (let s1 = s\<lparr>isPlaying := False, isPaused := True\<rparr>;
          s2 = (case intervalId s1 of
                  Some i \<Rightarrow> if i \<noteq> 0 then (clearTimeout i s1)\<lparr>intervalId := None\<rparr> else s1
                | None \<Rightarrow> s1);
          s3 = (case sentencePauseTimeoutId s2 of
                  Some i \<Rightarrow>
                    if i \<noteq> 0 then (clearTimeout i s2)\<lparr>sentencePauseTimeoutId := None\<rparr> else s2
                | None \<Rightarrow> s2)
      in if hasStarted s3 \<and> currentWordIndex s3 < int (length (words s3))
         then updateStatus PausedContinue False s3 else s3)"

text \<open>
  \<^verbatim>\<open>isSentenceEnd\<close>: \<^verbatim>\<open>/[.!?]$/\<close> or \<^verbatim>\<open>/[.!?]["']$/\<close>; without the \<^verbatim>\<open>m\<close> flag \<^verbatim>\<open>$\<close> is the end
  of the string. The quotes are 34 and 39.
\<close>

definition is_quote :: "codeunit \<Rightarrow> bool" where
  "is_quote c = (c = 34 \<or> c = 39)"

definition isSentenceEnd :: "jsstring \<Rightarrow> bool" where
  "isSentenceEnd word =
     ((case rev word of [] \<Rightarrow> False | c # _ \<Rightarrow> is_terminator c)
      \<or> (case rev word of q # c # _ \<Rightarrow> is_quote q \<and> is_terminator c | _ \<Rightarrow> False))"

text \<open>
  \<^verbatim>\<open>RegExp.prototype.test\<close> converts its argument to a string: \<^verbatim>\<open>undefined\<close> is tested as
  the nine letters of its name.
\<close>

definition to_string :: "jsstring option \<Rightarrow> jsstring" where
  "to_string v = (case v of None \<Rightarrow> js ''undefined'' | Some w \<Rightarrow> w)"

definition baseInterval :: "app \<Rightarrow> rat" where
  "baseInterval s = 60000 / of_int (wpm s)"

definition needsSentencePause :: "app \<Rightarrow> bool" where
  "needsSentencePause s =
     (sentencePause s > 0
      \<and> isSentenceEnd (to_string (at_index (words s) (currentWordIndex s))))"

definition scheduleNextWord :: "app \<Rightarrow> app" where
  "scheduleNextWord s =
     (if \<not> isPlaying s then s
      else if needsSentencePause s
      then (let (i, s1) = setTimeout ClearThenWait (baseInterval s) s
            in s1\<lparr>intervalId := Some i\<rparr>)
      else (let (i, s1) = setTimeout Advance (baseInterval s) s
            in s1\<lparr>intervalId := Some i\<rparr>))"

definition play :: "app \<Rightarrow> app" where
  "play s =
     (if isPlaying s \<or> currentWordIndex s \<ge> int (length (words s)) then s
      else scheduleNextWord (hideStatus (s\<lparr>isPlaying := True, isPaused := False\<rparr>)))"

definition paragraphEndIndex :: "paragraph_t \<Rightarrow> int" where
  "paragraphEndIndex p = startWordIndex p + int (length (p_words p))"

definition advanceWord :: "app \<Rightarrow> outcome" where
  "advanceWord s =
     (let s1 = s\<lparr>currentWordIndex := currentWordIndex s + 1\<rparr>
      in case at_index (paragraphs s1) (currentParagraphIndex s1) of
           None \<Rightarrow> Threw s1
         | Some currentParagraph \<Rightarrow>
             if currentWordIndex s1 \<ge> paragraphEndIndex currentParagraph
             then (let s2 = pause s1
                   in if currentParagraphIndex s2 < int (length (paragraphs s2)) - 1
                      then Returned (showParagraphBreak s2)
                      else Returned (showEndOfText s2))
             else and_then (displayCurrentWord s1) (\<lambda>s2. Returned (scheduleNextWord s2)))"

text \<open>What a pending timer runs when it fires.\<close>

definition run_callback :: "callback \<Rightarrow> app \<Rightarrow> outcome" where
  "run_callback cb s =
     (case cb of
        ClearThenWait \<Rightarrow>
          if \<not> isPlaying s then Returned s
          else (let s1 = clearWordDisplay s;
                    (i, s2) = setTimeout Advance (of_int (sentencePause s1)) s1
                in Returned (s2\<lparr>sentencePauseTimeoutId := Some i\<rparr>))
      | Advance \<Rightarrow>
          if \<not> isPlaying s then Returned s else advanceWord s)"

definition startReading :: "app \<Rightarrow> outcome" where
  "startReading s =
     (let text0 = textInput s
      in if trim text0 = [] then Returned (updateStatus PasteAndPress False s)
         else (let (ok, s1) = parseText text0 s
               in if \<not> ok then Returned s1
                  else (let s2 = s1\<lparr>currentWordIndex := 0, currentParagraphIndex := 0,
                                    hasStarted := True\<rparr>
                        in and_then (displayCurrentWord s2) (\<lambda>s3. Returned (play s3)))))"

definition reset :: "app \<Rightarrow> app" where
  "reset s =
     (let s1 = pause s
      in clearWordDisplay
           (s1\<lparr>words := [], paragraphs := [], currentWordIndex := 0,
               currentParagraphIndex := 0, hasStarted := False, isPaused := False\<rparr>))"

definition continueAfterParagraph :: "app \<Rightarrow> outcome" where
  "continueAfterParagraph s =
     and_then
       (if currentParagraphIndex s \<ge> int (length (paragraphs s)) - 1
           \<and> currentWordIndex s \<ge> int (length (words s))
        then Returned (s\<lparr>currentWordIndex := 0, currentParagraphIndex := 0\<rparr>)
        else (let s1 = s\<lparr>currentParagraphIndex := currentParagraphIndex s + 1\<rparr>
              in if currentParagraphIndex s1 < int (length (paragraphs s1))
                 then (case at_index (paragraphs s1) (currentParagraphIndex s1) of
                         None \<Rightarrow> Threw s1
                       | Some p \<Rightarrow> Returned (s1\<lparr>currentWordIndex := startWordIndex p\<rparr>))
                 else Returned s1))
       (\<lambda>s2. and_then (displayCurrentWord s2) (\<lambda>s3. Returned (play s3)))"

definition restartCurrentParagraph :: "app \<Rightarrow> outcome" where
  "restartCurrentParagraph s =
     (case at_index (paragraphs s) (currentParagraphIndex s) of
        None \<Rightarrow> Threw s
      | Some currentParagraph \<Rightarrow>
          and_then
            (displayCurrentWord (s\<lparr>currentWordIndex := startWordIndex currentParagraph\<rparr>))
            (\<lambda>s1. Returned (play s1)))"

definition navigatePrev :: "app \<Rightarrow> outcome" where
  "navigatePrev s =
     (if hasStarted s \<and> currentWordIndex s > 0
      then (let s1 = pause s;
                s2 = s1\<lparr>currentWordIndex := currentWordIndex s1 - 1\<rparr>
            in and_then (displayCurrentWord s2)
                 (\<lambda>s3. Returned (updateStatus PausedContinue False s3)))
      else Returned s)"

definition navigateNext :: "app \<Rightarrow> outcome" where
  "navigateNext s =
     (if hasStarted s \<and> currentWordIndex s < int (length (words s)) - 1
      then (let s1 = pause s;
                s2 = s1\<lparr>currentWordIndex := currentWordIndex s1 + 1\<rparr>
            in and_then (displayCurrentWord s2)
                 (\<lambda>s3. Returned (updateStatus PausedContinue False s3)))
      else Returned s)"

subsection \<open>Event handlers\<close>

text \<open>
  The body shared by \<^verbatim>\<open>handleReaderClick\<close> and the Space branch of \<^verbatim>\<open>onGlobalKeydown\<close>.
\<close>

definition handleReaderClick :: "app \<Rightarrow> outcome" where
  "handleReaderClick s =
     (if \<not> hasStarted s then startReading s
      else if isPaused s
      then (case at_index (paragraphs s) (currentParagraphIndex s) of
              None \<Rightarrow> Threw s
            | Some currentParagraph \<Rightarrow>
                if currentWordIndex s \<ge> paragraphEndIndex currentParagraph
                then continueAfterParagraph s
                else Returned (play s))
      else Returned (pause s))"

definition onTextChange :: "app \<Rightarrow> app" where
  "onTextChange s =
     (let s1 = (if hasStarted s then reset s else s)
      in if length (trim (textInput s1)) > 0
         then updateStatus ClickToStart False s1
         else updateStatus PasteAndClick False s1)"

definition onWpmChange :: "int \<Rightarrow> app \<Rightarrow> app" where
  "onWpmChange v s =
     (let s1 = s\<lparr>wpm := v\<rparr>
      in if isPlaying s1 then play (pause s1) else s1)"

definition onPauseChange :: "int \<Rightarrow> app \<Rightarrow> app" where
  "onPauseChange v s = s\<lparr>sentencePause := v\<rparr>"

datatype key = Space | ArrowLeft | ArrowRight | KeyR | OtherKey

text \<open>
  \<^verbatim>\<open>onGlobalKeydown\<close>; the first argument says whether the target of the event is the
  text area. A key event has one code, so at most one branch runs.
\<close>

definition onGlobalKeydown :: "bool \<Rightarrow> key \<Rightarrow> app \<Rightarrow> outcome" where
  "onGlobalKeydown inTextInput k s =
     (if inTextInput then Returned s
      else (case k of
              Space \<Rightarrow> handleReaderClick s
            | ArrowLeft \<Rightarrow>
                if hasStarted s
                then (let s1 = pause s
                      in if currentWordIndex s1 > 0
                         then displayCurrentWord
                                (s1\<lparr>currentWordIndex := currentWordIndex s1 - 1\<rparr>)
                         else Returned s1)
                else Returned s
            | ArrowRight \<Rightarrow>
                if hasStarted s
                then (let s1 = pause s
                      in if currentWordIndex s1 < int (length (words s1)) - 1
                         then displayCurrentWord
                                (s1\<lparr>currentWordIndex := currentWordIndex s1 + 1\<rparr>)
                         else Returned s1)
                else Returned s
            | KeyR \<Rightarrow> if hasStarted s then restartCurrentParagraph s else Returned s
            | OtherKey \<Rightarrow> Returned s))"

subsection \<open>Events\<close>

text \<open>
  What can happen to the page: the user edits the text area (the \<^verbatim>\<open>input\<close> listener then
  runs \<^verbatim>\<open>onTextChange\<close>), changes one of the two selects, clicks the reader panel or one of
  the two arrows, presses a key, or a pending timer fires. An exception that leaves a
  handler ends that handler only; the page goes on with the state reached.
\<close>

datatype event =
    Input jsstring
  | WpmChange int
  | PauseChange int
  | ReaderClick
  | NavPrevClick
  | NavNextClick
  | Keydown bool key
  | TimerFires nat

definition fire :: "nat \<Rightarrow> app \<Rightarrow> outcome" where
  "fire i s =
     (case find (\<lambda>t. timerId t = i) (timers s) of
        None \<Rightarrow> Returned s
      | Some t \<Rightarrow> run_callback (callback t) (clearTimeout i s))"

fun handle :: "event \<Rightarrow> app \<Rightarrow> outcome" where
  "handle (Input t) s = Returned (onTextChange (s\<lparr>textInput := t\<rparr>))"
| "handle (WpmChange v) s = Returned (onWpmChange v s)"
| "handle (PauseChange v) s = Returned (onPauseChange v s)"
| "handle ReaderClick s = handleReaderClick s"
| "handle NavPrevClick s = navigatePrev s"
| "handle NavNextClick s = navigateNext s"
| "handle (Keydown inTextInput k) s = onGlobalKeydown inTextInput k s"
| "handle (TimerFires i) s = fire i s"

definition step :: "event \<Rightarrow> app \<Rightarrow> app" where
  "step e s = state_of (handle e s)"

fun run :: "event list \<Rightarrow> app \<Rightarrow> app" where
  "run [] s = s"
| "run (e # es) s = run es (step e s)"

text \<open>
  The state after the constructor and \<^verbatim>\<open>init\<close>; the two settings are read from the
  selects of the page, and the text area holds what the page holds.
\<close>

definition initial :: "int \<Rightarrow> int \<Rightarrow> jsstring \<Rightarrow> app" where
  "initial w p t =
     \<lparr> words = [], paragraphs = [], currentWordIndex = 0, currentParagraphIndex = 0,
       isPlaying = False, isPaused = False, hasStarted = False,
       wpm = w, sentencePause = p, intervalId = None, sentencePauseTimeoutId = None,
       textInput = t, display = blank,
       statusText = PasteAndClick, statusBreak = False, statusHidden = False,
       timers = [], nextTimerId = 1 \<rparr>"

subsection \<open>Stepping and invariants\<close>

text \<open>
  The events that step by one word: a click on one of the two arrows, or an arrow key
  pressed outside the text area.
\<close>

fun is_step :: "event \<Rightarrow> bool" where
  "is_step NavPrevClick = True"
| "is_step NavNextClick = True"
| "is_step (Keydown inTextInput k) = (\<not> inTextInput \<and> (k = ArrowLeft \<or> k = ArrowRight))"
| "is_step e = False"

text \<open>
  The paragraphs and words that \<open>parseText\<close> stores once a reading has started: there is a
  paragraph, no paragraph is without words, the words are the paragraphs' words in order
  and every start index is the sum of the word counts before it.
\<close>

definition wf_model :: "paragraph_t list \<Rightarrow> jsstring list \<Rightarrow> bool" where
  "wf_model ps ws =
     (ps \<noteq> [] \<and> ws = flattenWords ps
      \<and> (\<forall>i<length ps. startWordIndex (ps ! i) = (\<Sum>j<i. int (length (p_words (ps ! j)))))
      \<and> (\<forall>p\<in>set ps. p_words p \<noteq> []))"

text \<open>
  Timers: nothing is pending unless the application is playing; at most one timer is
  pending, and one of the two handle fields holds its handle; handles are positive and
  below the next one.
\<close>

definition inv_timers :: "app \<Rightarrow> bool" where
  "inv_timers s =
     (0 < nextTimerId s
      \<and> (\<not> isPlaying s \<longrightarrow> timers s = [])
      \<and> (\<forall>t\<in>set (timers s). 0 < timerId t \<and> timerId t < nextTimerId s)
      \<and> (timers s = []
          \<or> (\<exists>t. timers s = [t]
                \<and> (intervalId s = Some (timerId t)
                    \<or> sentencePauseTimeoutId s = Some (timerId t)))))"

definition inv_position :: "app \<Rightarrow> bool" where
  "inv_position s =
     ((isPlaying s \<longrightarrow> hasStarted s \<and> currentWordIndex s < int (length (words s)))
      \<and> (hasStarted s \<longrightarrow>
            wf_model (paragraphs s) (words s)
            \<and> 0 \<le> currentWordIndex s \<and> currentWordIndex s \<le> int (length (words s))
            \<and> 0 \<le> currentParagraphIndex s
            \<and> currentParagraphIndex s < int (length (paragraphs s))))"

definition inv_range :: "app \<Rightarrow> bool" where
  "inv_range s =
     (hasStarted s \<longrightarrow>
        startWordIndex (paragraphs s ! nat (currentParagraphIndex s)) \<le> currentWordIndex s
        \<and> currentWordIndex s \<le> paragraphEndIndex (paragraphs s ! nat (currentParagraphIndex s))
        \<and> (isPlaying s \<longrightarrow>
              currentWordIndex s
                < paragraphEndIndex (paragraphs s ! nat (currentParagraphIndex s))))"

text \<open>
  The position invariant in the words of the specification: the word index lies between 0
  and the number of words, and the paragraph index is that of the paragraph whose range
  holds the word index, or of the last paragraph when the word index is the number of
  words.
\<close>

definition spec_position_invariant :: "app \<Rightarrow> bool" where
  "spec_position_invariant s =
     (0 \<le> currentWordIndex s \<and> currentWordIndex s \<le> int (length (words s))
      \<and> (if currentWordIndex s = int (length (words s))
          then currentParagraphIndex s = int (length (paragraphs s)) - 1
          else (case at_index (paragraphs s) (currentParagraphIndex s) of
                  None \<Rightarrow> False
                | Some p \<Rightarrow> startWordIndex p \<le> currentWordIndex s
                            \<and> currentWordIndex s < paragraphEndIndex p)))"

subsection \<open>The description of the fixation table\<close>

text \<open>
  The table as the specification words it: offset 0 for clean lengths 0 to 2, 1 for 3 to 5,
  2 for 6 to 9, 3 for 10 to 13 and 4 from 14 on; and the leading run as the longest prefix
  without a letter or digit.
\<close>

definition spec_offset :: "nat \<Rightarrow> int" where
  "spec_offset n = (if n < 3 then 0 else if n < 6 then 1 else if n < 10 then 2
                    else if n < 14 then 3 else 4)"

definition spec_leading :: "jsstring \<Rightarrow> nat" where
  "spec_leading w = length (takeWhile (\<lambda>c. \<not> is_alnum c) w)"

section \<open>Properties of the ORP calculation\<close>

lemma orpIndex_spec_offset: "orpIndex (int n) = spec_offset n"
  by (simp add: orpIndex_def spec_offset_def)

lemma leadingPunctuation_takeWhile:
  "leadingPunctuation w = int (length (takeWhile (\<lambda>c. \<not> is_alnum c) w))"
  by (induction w) simp_all

lemma leading_plus_clean_le:
  "length (takeWhile (\<lambda>c. \<not> is_alnum c) w) + length (filter is_alnum w) \<le> length w"
  by (induction w) auto

lemma orpIndex_bounds: "0 \<le> orpIndex (int n) \<and> orpIndex (int n) \<le> int n"
  by (simp add: orpIndex_def)

lemma calculateORP_nonneg: "0 \<le> calculateORP w"
  using orpIndex_bounds [of "length (cleanWord w)"]
  by (simp add: calculateORP_def leadingPunctuation_takeWhile)

lemma calculateORP_le_length: "calculateORP w \<le> int (length w)"
proof -
  have "calculateORP w
          \<le> int (length (takeWhile (\<lambda>c. \<not> is_alnum c) w)) + int (length (filter is_alnum w))"
    using orpIndex_bounds [of "length (cleanWord w)"]
    by (simp add: calculateORP_def leadingPunctuation_takeWhile cleanWord_def)
  also have "\<dots> \<le> int (length w)"
    using leading_plus_clean_le [of w] by linarith
  finally show ?thesis .
qed

lemmas js_eval = js_def is_alnum_def calculateORP_def cleanWord_def orpIndex_def

text \<open>
  Claim C3. For every word, \<open>calculateORP\<close> is the number of leading code units that are
  not ASCII letters or digits plus the table offset of the length of the word with all
  such code units removed; the seven table checks of the specification hold.
\<close>

theorem calculateORP_table:
  "calculateORP w = int (spec_leading w) + spec_offset (length (filter is_alnum w))
   \<and> calculateORP (js ''I'') = 0
   \<and> calculateORP (js ''to'') = 0
   \<and> calculateORP (js ''cat'') = 1
   \<and> calculateORP (js ''world'') = 1
   \<and> calculateORP (js ''reading'') = 2
   \<and> calculateORP (js ''information'') = 3
   \<and> calculateORP (js (CHR 0x22 # ''Hello'')) = 2"
proof -
  have "calculateORP w = int (spec_leading w) + spec_offset (length (filter is_alnum w))"
    by (simp add: calculateORP_def cleanWord_def spec_leading_def
        leadingPunctuation_takeWhile orpIndex_spec_offset)
  moreover have "calculateORP (js ''I'') = 0" by (simp add: js_eval)
  moreover have "calculateORP (js ''to'') = 0" by (simp add: js_eval)
  moreover have "calculateORP (js ''cat'') = 1" by (simp add: js_eval)
  moreover have "calculateORP (js ''world'') = 1" by (simp add: js_eval)
  moreover have "calculateORP (js ''reading'') = 2" by (simp add: js_eval)
  moreover have "calculateORP (js ''information'') = 3" by (simp add: js_eval)
  moreover have "calculateORP (js (CHR 0x22 # ''Hello'')) = 2" by (simp add: js_eval)
  ultimately show ?thesis by blast
qed

text \<open>
  Claim C5. For every word, the three parts of \<open>splitWordAtORP\<close> are the prefix before the
  ORP index, the single code unit at that index (the empty string when the index is the
  length of the word) and the rest after it, and they concatenate to the word. The
  function takes the word only and returns the split only: it reads and writes no state.
\<close>

theorem splitWordAtORP_roundtrip:
  "before (splitWordAtORP w) @ focus (splitWordAtORP w) @ after (splitWordAtORP w) = w
   \<and> before (splitWordAtORP w) = take (nat (calculateORP w)) w
   \<and> focus (splitWordAtORP w) = take 1 (drop (nat (calculateORP w)) w)
   \<and> after (splitWordAtORP w) = drop (nat (calculateORP w) + 1) w"
proof -
  define k where "k = nat (calculateORP w)"
  have k: "calculateORP w = int k" "k \<le> length w"
    using calculateORP_nonneg [of w] calculateORP_le_length [of w] by (simp_all add: k_def)
  have b: "before (splitWordAtORP w) = take k w"
    using k by (simp add: splitWordAtORP_def substring_def clampIndex_def Let_def)
  have f: "focus (splitWordAtORP w) = take 1 (drop k w)"
  proof (cases "k < length w")
    case True
    then have "drop k w = w ! k # drop (Suc k) w"
      by (simp add: Cons_nth_drop_Suc)
    then have "take 1 (drop k w) = [w ! k]"
      by simp
    then show ?thesis using k True by (simp add: splitWordAtORP_def charAt_def Let_def)
  next
    case False
    then show ?thesis using k by (simp add: splitWordAtORP_def charAt_def Let_def)
  qed
  have a: "after (splitWordAtORP w) = drop (k + 1) w"
    using k
    by (simp add: splitWordAtORP_def substringFrom_def substring_def clampIndex_def
        Let_def min_def max_def nat_add_distrib)
  have "take k w @ take 1 (drop k w) @ drop (k + 1) w = w"
  proof -
    have "take 1 (drop k w) @ drop 1 (drop k w) = drop k w"
      by (rule append_take_drop_id)
    then have "take 1 (drop k w) @ drop (k + 1) w = drop k w"
      by (simp add: add.commute)
    then show ?thesis by simp
  qed
  then show ?thesis using b f a by (simp add: k_def)
qed

text \<open>
  Claim C9. \<open>calculateORP\<close> is a function of the word alone (it reads no state, so two runs
  on one word agree), and its result lies between 0 and the length of the word, words
  without any letter or digit included.
\<close>

theorem calculateORP_range:
  "0 \<le> calculateORP w \<and> calculateORP w \<le> int (length w)"
  using calculateORP_nonneg calculateORP_le_length by blast

section \<open>Properties of the segmentation\<close>

lemma length_assignStartIndices [simp]: "length (assignStartIndices a ps) = length ps"
  by (induction ps arbitrary: a) simp_all

lemma p_words_assignStartIndices [simp]:
  "map p_words (assignStartIndices a ps) = map p_words ps"
  by (induction ps arbitrary: a) simp_all

lemma p_text_assignStartIndices [simp]:
  "map p_text (assignStartIndices a ps) = map p_text ps"
  by (induction ps arbitrary: a) simp_all

lemma p_index_assignStartIndices [simp]:
  "map p_index (assignStartIndices a ps) = map p_index ps"
  by (induction ps arbitrary: a) simp_all

lemma nth_p_words_assignStartIndices:
  "i < length ps \<Longrightarrow> p_words (assignStartIndices a ps ! i) = p_words (ps ! i)"
  using p_words_assignStartIndices [of a ps]
  by (metis length_assignStartIndices nth_map)

lemma startWordIndex_assignStartIndices:
  "i < length ps \<Longrightarrow>
   startWordIndex (assignStartIndices a ps ! i) = a + (\<Sum>j<i. int (length (p_words (ps ! j))))"
proof (induction ps arbitrary: a i)
  case Nil
  then show ?case by simp
next
  case (Cons p ps)
  show ?case
  proof (cases i)
    case 0
    then show ?thesis by simp
  next
    case (Suc k)
    with Cons.prems have "k < length ps" by simp
    from Cons.IH [OF this] Suc show ?thesis
      by (simp add: sum.lessThan_Suc_shift del: sum.lessThan_Suc)
  qed
qed

lemma startWordIndex_parsed:
  assumes "i < length (parsedParagraphs t)"
  shows "startWordIndex (parsedParagraphs t ! i)
         = (\<Sum>j<i. int (length (p_words (parsedParagraphs t ! j))))"
proof -
  define qs where "qs = map makeParagraph (enumerate 0 (paragraphTexts t))"
  have ps: "parsedParagraphs t = assignStartIndices 0 qs"
    by (simp add: parsedParagraphs_def qs_def)
  have i: "i < length qs" using assms by (simp add: ps)
  have "(\<Sum>j<i. int (length (p_words (assignStartIndices 0 qs ! j))))
        = (\<Sum>j<i. int (length (p_words (qs ! j))))"
    by (rule sum.cong) (use i in \<open>simp_all add: nth_p_words_assignStartIndices\<close>)
  then show ?thesis
    using startWordIndex_assignStartIndices [OF i, of 0] by (simp add: ps)
qed

lemma map_startWordIndex_parsed:
  "map startWordIndex (parsedParagraphs t)
   = map (\<lambda>i. \<Sum>j<i. int (length (p_words (parsedParagraphs t ! j))))
       [0..<length (parsedParagraphs t)]"
  by (rule nth_equalityI) (simp_all add: startWordIndex_parsed)

lemma p_text_make: "map p_text (map makeParagraph (enumerate n xs)) = xs"
  by (induction xs arbitrary: n) (simp_all add: makeParagraph_def)

lemma p_words_make: "map p_words (map makeParagraph (enumerate n xs)) = map extractWords xs"
  by (induction xs arbitrary: n) (simp_all add: makeParagraph_def)

lemma p_index_make:
  "map p_index (map makeParagraph (enumerate n xs)) = map int [n..<n + length xs]"
  by (induction xs arbitrary: n) (simp_all add: makeParagraph_def upt_rec)

lemma p_text_parsed: "map p_text (parsedParagraphs t) = paragraphTexts t"
  by (simp add: parsedParagraphs_def p_text_make del: map_map)

lemma p_words_parsed: "map p_words (parsedParagraphs t) = map extractWords (paragraphTexts t)"
  by (simp add: parsedParagraphs_def p_words_make del: map_map)

lemma length_parsed: "length (parsedParagraphs t) = length (paragraphTexts t)"
  by (simp add: parsedParagraphs_def)

lemma p_index_parsed:
  "map p_index (parsedParagraphs t) = map int [0..<length (parsedParagraphs t)]"
  by (simp add: parsedParagraphs_def p_index_make del: map_map)

lemma paragraphTexts_example:
  "paragraphTexts exampleText
   = [js ''Hello world.'', js ''Second line here.'']"
  by (simp add: exampleText_def paragraphTexts_def js_def replaceCR_def trim_def is_space_def)

lemma extractWords_example1:
  "extractWords (js ''Hello world.'') = [js ''Hello'', js ''world.'']"
  by (simp add: extractWords_def js_def trim_def is_space_def)

lemma extractWords_example2:
  "extractWords (js ''Second line here.'') = [js ''Second'', js ''line'', js ''here.'']"
  by (simp add: extractWords_def js_def trim_def is_space_def)

lemma parsedParagraphs_example:
  "parsedParagraphs exampleText =
     [\<lparr>p_index = 0, p_text = js ''Hello world.'',
       p_words = [js ''Hello'', js ''world.''], startWordIndex = 0\<rparr>,
      \<lparr>p_index = 1, p_text = js ''Second line here.'',
       p_words = [js ''Second'', js ''line'', js ''here.''], startWordIndex = 2\<rparr>]"
  by (simp add: parsedParagraphs_def paragraphTexts_example enumerate_eq_zip
      makeParagraph_def extractWords_example1 extractWords_example2 upt_rec)

text \<open>
  Claim C2, as stated, fails in its example: "Hello world." and "Second line here." hold
  two and three words, so the flattened sequence has five words, not four.
\<close>

theorem parseText_example_count_not_4:
  "length (flattenWords (parsedParagraphs exampleText))
   \<noteq> 4"
  using parsedParagraphs_example by (simp add: flattenWords_def)

text \<open>
  Claim C2, amended. For every text, \<open>parseText\<close> stores the paragraphs in source order
  (their texts are the non-empty trimmed lines, in order, with indices 0, 1, ...; their
  words are the words of their text), the start index of paragraph \<open>i\<close> is the sum of the
  word counts of the paragraphs before it, and the stored word sequence is the
  concatenation of the paragraphs' words. The example text yields 2 paragraphs with start
  indices 0 and 2 and a flattened word count of 5.
\<close>

theorem parseText_offsets:
  "map p_text (paragraphs (snd (parseText t s))) = paragraphTexts t
   \<and> map p_index (paragraphs (snd (parseText t s)))
       = map int [0..<length (paragraphs (snd (parseText t s)))]
   \<and> map p_words (paragraphs (snd (parseText t s))) = map extractWords (paragraphTexts t)
   \<and> map startWordIndex (paragraphs (snd (parseText t s)))
       = map (\<lambda>i. \<Sum>j<i. int (length (p_words (paragraphs (snd (parseText t s)) ! j))))
           [0..<length (paragraphs (snd (parseText t s)))]
   \<and> words (snd (parseText t s)) = concat (map p_words (paragraphs (snd (parseText t s))))
   \<and> fst (parseText t s) = (words (snd (parseText t s)) \<noteq> [])
   \<and> map startWordIndex
        (parsedParagraphs exampleText) = [0, 2]
   \<and> length (flattenWords
        (parsedParagraphs exampleText)) = 5"
proof -
  have ps: "paragraphs (snd (parseText t s)) = parsedParagraphs t"
    by (simp add: parseText_def Let_def)
  have ws: "words (snd (parseText t s)) = flattenWords (parsedParagraphs t)"
    by (simp add: parseText_def Let_def)
  have ok: "fst (parseText t s) = (words (snd (parseText t s)) \<noteq> [])"
    by (simp add: parseText_def Let_def)
  have e1: "map startWordIndex
        (parsedParagraphs exampleText) = [0, 2]"
    using parsedParagraphs_example by simp
  have e2: "length (flattenWords
        (parsedParagraphs exampleText)) = 5"
    using parsedParagraphs_example by (simp add: flattenWords_def)
  have w: "flattenWords (parsedParagraphs t) = concat (map p_words (parsedParagraphs t))"
    by (simp add: flattenWords_def)
  show ?thesis
    unfolding ps
    using p_text_parsed [of t] p_index_parsed [of t] p_words_parsed [of t]
      map_startWordIndex_parsed [of t] ok e1 e2 w ws
    by (intro conjI) (simp_all only:)
qed

subsection \<open>Blank text has no words, any other text has one\<close>

lemma mem_dropWhile: "c \<in> set xs \<Longrightarrow> \<not> P c \<Longrightarrow> c \<in> set (dropWhile P xs)"
  by (induction xs) auto

lemma mem_trim: "c \<in> set s \<Longrightarrow> \<not> is_space c \<Longrightarrow> c \<in> set (trim s)"
  by (simp add: trim_def mem_dropWhile)

lemma set_trim_subset: "set (trim s) \<subseteq> set s"
proof -
  have "set (trim s) \<subseteq> set (dropWhile is_space s)"
    unfolding trim_def using set_dropWhileD [of _ is_space "rev (dropWhile is_space s)"]
    by auto
  then show ?thesis using set_dropWhileD [of _ is_space s] by blast
qed

lemma trim_eq_Nil: "trim s = [] \<longleftrightarrow> (\<forall>c\<in>set s. is_space c)"
proof
  assume "trim s = []"
  then show "\<forall>c\<in>set s. is_space c" using mem_trim [of _ s] by fastforce
next
  assume "\<forall>c\<in>set s. is_space c"
  then have d: "dropWhile is_space s = []" using dropWhile_eq_Nil_conv by blast
  show "trim s = []" unfolding trim_def d by simp
qed

lemma is_space_13: "is_space 13" and is_space_10: "is_space 10" and is_space_32: "is_space 32"
  by (simp_all add: is_space_def)

lemma mem_replaceCRLF: "c \<in> set s \<Longrightarrow> c \<noteq> 13 \<Longrightarrow> c \<in> set (replaceCRLF s)"
  by (induction s rule: replaceCRLF.induct) auto

lemma mem_replaceCR: "c \<in> set s \<Longrightarrow> c \<noteq> 13 \<Longrightarrow> c \<in> set (replaceCR s)"
  by (auto simp: replaceCR_def)

lemma splitOn_not_Nil [simp]: "splitOn sep s \<noteq> []"
  by (induction s) (auto split: list.splits)

lemma mem_splitOn: "c \<in> set s \<Longrightarrow> c \<noteq> sep \<Longrightarrow> \<exists>l\<in>set (splitOn sep s). c \<in> set l"
proof (induction s)
  case Nil
  then show ?case by simp
next
  case (Cons x xs)
  obtain l ls where l: "splitOn sep xs = l # ls"
    by (cases "splitOn sep xs") auto
  show ?case
  proof (cases "c = x")
    case True
    with Cons.prems l show ?thesis by simp
  next
    case False
    with Cons.prems have "c \<in> set xs" by simp
    from Cons.IH [OF this Cons.prems(2)] l show ?thesis by auto
  qed
qed

lemma mem_collapseSpaces:
  "c \<in> set s \<Longrightarrow> \<not> is_space c \<Longrightarrow> c \<in> set (collapseSpaces s)"
proof (induction s rule: collapseSpaces.induct)
  case 1
  then show ?case by simp
next
  case (2 x xs)
  show ?case
  proof (cases "is_space x")
    case True
    with "2.prems" have "c \<in> set xs" by auto
    then have "c \<in> set (dropWhile is_space xs)" using "2.prems"(2) by (rule mem_dropWhile)
    from "2.IH"(1) [OF True this "2.prems"(2)] True show ?thesis by simp
  next
    case False
    then show ?thesis using 2 by auto
  qed
qed

lemma extractWords_not_Nil:
  assumes "c \<in> set p" "\<not> is_space c"
  shows "extractWords p \<noteq> []"
proof -
  have c10: "c \<noteq> 10" and c32: "c \<noteq> 32" using assms(2) is_space_10 is_space_32 by auto
  let ?t1 = "map (\<lambda>c. if c = 10 then 32 else c) p"
  have "c \<in> set ?t1" using assms(1) c10 by force
  then have "c \<in> set (trim (collapseSpaces ?t1))"
    using assms(2) by (simp add: mem_collapseSpaces mem_trim)
  then obtain l where l: "l \<in> set (splitOn 32 (trim (collapseSpaces ?t1)))" "c \<in> set l"
    using mem_splitOn c32 by blast
  then have "l \<in> set (extractWords p)"
    by (auto simp: extractWords_def Let_def)
  then show ?thesis by auto
qed

lemma flattenWords_not_Nil:
  assumes "c \<in> set t" "\<not> is_space c"
  shows "flattenWords (parsedParagraphs t) \<noteq> []"
proof -
  have c13: "c \<noteq> 13" and c10: "c \<noteq> 10" using assms(2) is_space_13 is_space_10 by auto
  have "c \<in> set (replaceCR (replaceCRLF t))"
    using assms(1) c13 by (simp add: mem_replaceCRLF mem_replaceCR)
  then obtain l where l: "l \<in> set (splitOn 10 (replaceCR (replaceCRLF t)))" "c \<in> set l"
    using mem_splitOn c10 by blast
  have ct: "c \<in> set (trim l)" using l(2) assms(2) by (rule mem_trim)
  then have "trim l \<in> set (paragraphTexts t)"
    using l(1) by (auto simp: paragraphTexts_def)
  then have "extractWords (trim l) \<in> set (map p_words (parsedParagraphs t))"
    by (simp add: p_words_parsed)
  moreover have "extractWords (trim l) \<noteq> []"
    using ct assms(2) by (rule extractWords_not_Nil)
  ultimately show ?thesis
    unfolding flattenWords_def by (metis concat_eq_Nil_conv)
qed

lemma set_replaceCRLF: "set (replaceCRLF s) \<subseteq> insert 10 (set s)"
  by (induction s rule: replaceCRLF.induct) auto

lemma set_splitOn: "l \<in> set (splitOn sep s) \<Longrightarrow> set l \<subseteq> set s"
proof (induction s arbitrary: l)
  case Nil
  then show ?case by simp
next
  case (Cons x xs)
  obtain k ks where k: "splitOn sep xs = k # ks"
    by (cases "splitOn sep xs") auto
  show ?case
  proof (cases "x = sep")
    case True
    with Cons.prems have "l = [] \<or> l \<in> set (splitOn sep xs)" by simp
    with Cons.IH show ?thesis by auto
  next
    case False
    with Cons.prems k have "l = x # k \<or> l \<in> set ks" by simp
    moreover have "set k \<subseteq> set xs" using Cons.IH [of k] k by simp
    moreover have "l \<in> set ks \<Longrightarrow> set l \<subseteq> set xs" using Cons.IH [of l] k by simp
    ultimately show ?thesis by auto
  qed
qed

lemma paragraphTexts_blank:
  assumes "\<forall>c\<in>set t. is_space c"
  shows "paragraphTexts t = []"
proof -
  have "\<forall>c\<in>set (replaceCR (replaceCRLF t)). is_space c"
    using assms set_replaceCRLF [of t] is_space_10 by (auto simp: replaceCR_def)
  then have "\<forall>l\<in>set (splitOn 10 (replaceCR (replaceCRLF t))). trim l = []"
    using set_splitOn trim_eq_Nil by blast
  then show ?thesis
    by (simp add: paragraphTexts_def filter_empty_conv)
qed

lemma flattenWords_Nil_iff:
  "flattenWords (parsedParagraphs t) = [] \<longleftrightarrow> trim t = []"
proof
  assume "flattenWords (parsedParagraphs t) = []"
  then show "trim t = []"
    using flattenWords_not_Nil [of _ t] trim_eq_Nil [of t] by blast
next
  assume "trim t = []"
  then have "paragraphTexts t = []" by (simp add: trim_eq_Nil paragraphTexts_blank)
  then show "flattenWords (parsedParagraphs t) = []"
    by (simp add: parsedParagraphs_def flattenWords_def)
qed

text \<open>
  Claim C6. When the flattened word sequence of the text is empty (exactly when the text
  is blank), \<open>parseText\<close> returns false, and \<open>startReading\<close> returns without an exception
  after it has set the status line, with the mode flags, the position, the words, the
  paragraphs, the timers and the display as they were.
\<close>

theorem startReading_blank:
  assumes "flattenWords (parsedParagraphs (textInput s)) = []"
  shows "\<not> fst (parseText (textInput s) s)
   \<and> trim (textInput s) = []
   \<and> startReading s = Returned (updateStatus PasteAndPress False s)
   \<and> isPlaying (state_of (startReading s)) = isPlaying s
   \<and> isPaused (state_of (startReading s)) = isPaused s
   \<and> hasStarted (state_of (startReading s)) = hasStarted s
   \<and> currentWordIndex (state_of (startReading s)) = currentWordIndex s
   \<and> currentParagraphIndex (state_of (startReading s)) = currentParagraphIndex s
   \<and> words (state_of (startReading s)) = words s
   \<and> paragraphs (state_of (startReading s)) = paragraphs s
   \<and> timers (state_of (startReading s)) = timers s
   \<and> display (state_of (startReading s)) = display s"
proof -
  have t: "trim (textInput s) = []" using assms by (simp add: flattenWords_Nil_iff)
  have p: "\<not> fst (parseText (textInput s) s)"
    using assms by (simp add: parseText_def Let_def)
  have r: "startReading s = Returned (updateStatus PasteAndPress False s)"
    using t by (simp add: startReading_def Let_def)
  show ?thesis using t p by (simp add: r updateStatus_def)
qed

theorem startReading_blank_witness:
  "flattenWords (parsedParagraphs (textInput (initial 300 200 [32, 32, 32, 10, 32, 32]))) = []
   \<and> \<not> fst (parseText [32, 32, 32, 10, 32, 32] (initial 300 200 [32, 32, 32, 10, 32, 32]))
   \<and> startReading (initial 300 200 [32, 32, 32, 10, 32, 32])
       = Returned (updateStatus PasteAndPress False (initial 300 200 [32, 32, 32, 10, 32, 32]))
   \<and> hasStarted (state_of (startReading (initial 300 200 [32, 32, 32, 10, 32, 32]))) = False"
proof -
  have h: "flattenWords (parsedParagraphs (textInput (initial 300 200 [32, 32, 32, 10, 32, 32]))) = []"
    by (simp add: initial_def flattenWords_def parsedParagraphs_def paragraphTexts_def
        replaceCR_def trim_def is_space_def)
  have ti: "textInput (initial 300 200 [32, 32, 32, 10, 32, 32]) = [32, 32, 32, 10, 32, 32]"
    and hs: "hasStarted (initial 300 200 [32, 32, 32, 10, 32, 32]) = False"
    by (simp_all add: initial_def)
  show ?thesis
    using h startReading_blank [OF h] unfolding ti hs by blast
qed

subsection \<open>Sentence matching drops an unterminated tail\<close>

lemma matchSentences_terminator:
  "is_terminator c \<Longrightarrow> matchSentences (c # cs) = matchSentences cs"
  by simp

lemma matchSentences_no_end:
  "\<not> is_terminator c \<Longrightarrow> dropWhile (\<lambda>x. \<not> is_terminator x) cs = [] \<Longrightarrow>
   matchSentences (c # cs) = matchSentences cs"
  by simp

lemma matchSentences_match:
  "\<not> is_terminator c \<Longrightarrow> dropWhile (\<lambda>x. \<not> is_terminator x) cs = r1 \<Longrightarrow> r1 \<noteq> [] \<Longrightarrow>
   matchSentences (c # cs)
   = (c # takeWhile (\<lambda>x. \<not> is_terminator x) cs @ takeWhile is_terminator r1
        @ takeWhile is_space (dropWhile is_terminator r1))
     # matchSentences (dropWhile is_space (dropWhile is_terminator r1))"
  by (simp add: Let_def)

lemma matchSentences_no_terminator:
  "\<forall>c\<in>set t. \<not> is_terminator c \<Longrightarrow> matchSentences t = []"
proof (induction t)
  case Nil
  then show ?case by simp
next
  case (Cons c cs)
  then have "dropWhile (\<lambda>x. \<not> is_terminator x) cs = []" by simp
  with Cons show ?case by (simp add: matchSentences_no_end del: matchSentences.simps)
qed

lemma terminator_not_space: "is_terminator c \<Longrightarrow> \<not> is_space c"
  by (auto simp: is_terminator_def is_space_def)

lemma length_drop_drop:
  "length (dropWhile P (dropWhile Q (dropWhile R cs))) < Suc (length cs)"
proof -
  have "length (dropWhile P (dropWhile Q (dropWhile R cs))) \<le> length (dropWhile Q (dropWhile R cs))"
    by (rule length_dropWhile_le)
  also have "\<dots> \<le> length (dropWhile R cs)" by (rule length_dropWhile_le)
  also have "\<dots> \<le> length cs" by (rule length_dropWhile_le)
  finally show ?thesis by simp
qed

lemma matchSentences_has_terminator:
  "x \<in> set (matchSentences t) \<Longrightarrow> \<exists>c\<in>set x. is_terminator c"
proof (induction "length t" arbitrary: t rule: less_induct)
  case less
  show ?case
  proof (cases t)
    case Nil
    with less.prems show ?thesis by simp
  next
    case (Cons c cs)
    show ?thesis
    proof (cases "is_terminator c")
      case True
      then have "x \<in> set (matchSentences cs)"
        using less.prems Cons by (simp del: matchSentences.simps add: matchSentences_terminator)
      then show ?thesis using less.hyps [of cs] Cons by simp
    next
      case False
      define r1 where "r1 = dropWhile (\<lambda>x. \<not> is_terminator x) cs"
      show ?thesis
      proof (cases "r1 = []")
        case True
        then have "x \<in> set (matchSentences cs)"
          using less.prems Cons False
          by (simp del: matchSentences.simps add: matchSentences_no_end r1_def)
        then show ?thesis using less.hyps [of cs] Cons by simp
      next
        case ne: False
        let ?r3 = "dropWhile is_space (dropWhile is_terminator r1)"
        have m: "matchSentences t
          = (c # takeWhile (\<lambda>x. \<not> is_terminator x) cs @ takeWhile is_terminator r1
              @ takeWhile is_space (dropWhile is_terminator r1)) # matchSentences ?r3"
          unfolding Cons using False r1_def [symmetric] ne by (rule matchSentences_match)
        have "is_terminator (hd r1)"
          using hd_dropWhile [of "\<lambda>x. \<not> is_terminator x" cs] ne by (simp add: r1_def)
        then have "hd r1 \<in> set (takeWhile is_terminator r1)"
          using ne by (cases r1) auto
        moreover have "length ?r3 < length t"
          unfolding Cons r1_def using length_drop_drop by simp
        ultimately have first: "\<exists>c\<in>set (c # takeWhile (\<lambda>x. \<not> is_terminator x) cs
               @ takeWhile is_terminator r1
               @ takeWhile is_space (dropWhile is_terminator r1)). is_terminator c"
          and len: "length ?r3 < length t"
          using \<open>is_terminator (hd r1)\<close> by (simp_all, blast)
        from less.prems have "x = c # takeWhile (\<lambda>x. \<not> is_terminator x) cs
               @ takeWhile is_terminator r1
               @ takeWhile is_space (dropWhile is_terminator r1)
            \<or> x \<in> set (matchSentences ?r3)"
          unfolding m by simp
        then show ?thesis
        proof
          assume "x = c # takeWhile (\<lambda>x. \<not> is_terminator x) cs
               @ takeWhile is_terminator r1
               @ takeWhile is_space (dropWhile is_terminator r1)"
          then show ?thesis using first by simp
        next
          assume "x \<in> set (matchSentences ?r3)"
          then show ?thesis using less.hyps [OF len] by simp
        qed
      qed
    qed
  qed
qed

lemma matchSentences_append_tail:
  assumes tail: "\<forall>c\<in>set tail. \<not> is_terminator c"
  shows "(matchSentences body = [] \<and> matchSentences (body @ tail) = [])
       \<or> (matchSentences body \<noteq> [] \<and>
          (\<exists>w. (\<forall>c\<in>set w. is_space c) \<and>
             matchSentences (body @ tail)
             = butlast (matchSentences body) @ [last (matchSentences body) @ w]))"
proof (induction "length body" arbitrary: body rule: less_induct)
  case less
  have tl0: "matchSentences tail = []" using tail by (rule matchSentences_no_terminator)
  show ?case
  proof (cases body)
    case Nil
    then show ?thesis using tl0 by simp
  next
    case (Cons c cs)
    show ?thesis
    proof (cases "is_terminator c")
      case True
      then have "matchSentences (body @ tail) = matchSentences (cs @ tail)"
        and "matchSentences body = matchSentences cs"
        unfolding Cons by (simp_all del: matchSentences.simps add: matchSentences_terminator)
      then show ?thesis using less [of cs] Cons by simp
    next
      case False
      define r1 where "r1 = dropWhile (\<lambda>x. \<not> is_terminator x) cs"
      show ?thesis
      proof (cases "r1 = []")
        case True
        then have all: "\<forall>x\<in>set cs. \<not> is_terminator x"
          by (simp add: r1_def dropWhile_eq_Nil_conv)
        then have "\<forall>x\<in>set (body @ tail). \<not> is_terminator x"
          and "\<forall>x\<in>set body. \<not> is_terminator x"
          using tail False Cons by auto
        then show ?thesis by (simp add: matchSentences_no_terminator)
      next
        case ne: False
        define r2 where "r2 = dropWhile is_terminator r1"
        define r3 where "r3 = dropWhile is_space r2"
        define m where "m = c # takeWhile (\<lambda>x. \<not> is_terminator x) cs @ takeWhile is_terminator r1"
        have mb: "matchSentences body = (m @ takeWhile is_space r2) # matchSentences r3"
          unfolding Cons m_def r2_def r3_def
          using matchSentences_match [OF False r1_def [symmetric] ne] by simp
        have ex: "\<exists>x\<in>set cs. \<not> \<not> is_terminator x"
          using ne by (auto simp: r1_def dropWhile_eq_Nil_conv)
        have tw1: "takeWhile (\<lambda>x. \<not> is_terminator x) (cs @ tail)
                   = takeWhile (\<lambda>x. \<not> is_terminator x) cs"
          using ex by (auto simp: takeWhile_append)
        have dw1: "dropWhile (\<lambda>x. \<not> is_terminator x) (cs @ tail) = r1 @ tail"
          using ex by (auto simp: dropWhile_append r1_def)
        have mt: "matchSentences (body @ tail)
           = (c # takeWhile (\<lambda>x. \<not> is_terminator x) cs @ takeWhile is_terminator (r1 @ tail)
               @ takeWhile is_space (dropWhile is_terminator (r1 @ tail)))
             # matchSentences (dropWhile is_space (dropWhile is_terminator (r1 @ tail)))"
          unfolding Cons append_Cons
          using matchSentences_match [OF False dw1] ne by (simp add: tw1)
        have tail_tw: "takeWhile is_terminator tail = []" and tail_dw: "dropWhile is_terminator tail = tail"
          using tail by (cases tail; simp)+
        show ?thesis
        proof (cases "r2 = []")
          case True
          then have allt: "\<forall>x\<in>set r1. is_terminator x"
            by (simp add: r2_def dropWhile_eq_Nil_conv)
          have r1all: "takeWhile is_terminator r1 = r1"
            using allt by simp
          have a: "takeWhile is_terminator (r1 @ tail) = takeWhile is_terminator r1"
            unfolding r1all using allt tail_tw by (simp add: takeWhile_append2)
          have b: "dropWhile is_terminator (r1 @ tail) = tail"
            using allt tail_dw by (simp add: dropWhile_append2)
          have "\<forall>x\<in>set (dropWhile is_space tail). \<not> is_terminator x"
            using tail set_dropWhileD by fastforce
          then have c0: "matchSentences (dropWhile is_space tail) = []"
            by (rule matchSentences_no_terminator)
          have r3: "r3 = []" using True by (simp add: r3_def)
          have "matchSentences (body @ tail) = [m @ takeWhile is_space tail]"
            unfolding mt a b c0 m_def by simp
          moreover have "matchSentences body = [m]"
            unfolding mb using True r3 by simp
          moreover have "\<forall>c\<in>set (takeWhile is_space tail). is_space c"
            using set_takeWhileD by fastforce
          ultimately show ?thesis by auto
        next
          case r2ne: False
          have ex2: "\<exists>x\<in>set r1. \<not> is_terminator x"
            using r2ne by (auto simp: r2_def dropWhile_eq_Nil_conv)
          have a: "takeWhile is_terminator (r1 @ tail) = takeWhile is_terminator r1"
            using ex2 by (auto simp: takeWhile_append)
          have b: "dropWhile is_terminator (r1 @ tail) = r2 @ tail"
            using ex2 by (auto simp: dropWhile_append r2_def)
          show ?thesis
          proof (cases "r3 = []")
            case True
            then have alls: "\<forall>x\<in>set r2. is_space x"
              by (simp add: r3_def dropWhile_eq_Nil_conv)
            have c1: "takeWhile is_space (r2 @ tail) = r2 @ takeWhile is_space tail"
              using alls by (simp add: takeWhile_append2)
            have c2: "dropWhile is_space (r2 @ tail) = dropWhile is_space tail"
              using alls by (simp add: dropWhile_append2)
            have "\<forall>x\<in>set (dropWhile is_space tail). \<not> is_terminator x"
              using tail set_dropWhileD by fastforce
            then have c0: "matchSentences (dropWhile is_space tail) = []"
              by (rule matchSentences_no_terminator)
            have tw2: "takeWhile is_space r2 = r2" using alls by simp
            have "matchSentences (body @ tail) = [(m @ r2) @ takeWhile is_space tail]"
              unfolding mt a b c1 c2 c0 m_def by simp
            moreover have "matchSentences body = [m @ r2]"
              unfolding mb using True tw2 by simp
            moreover have "\<forall>c\<in>set (takeWhile is_space tail). is_space c"
              using set_takeWhileD by fastforce
            ultimately show ?thesis by auto
          next
            case r3ne: False
            have ex3: "\<exists>x\<in>set r2. \<not> is_space x"
              using r3ne by (auto simp: r3_def dropWhile_eq_Nil_conv)
            have c1: "takeWhile is_space (r2 @ tail) = takeWhile is_space r2"
              using ex3 by (auto simp: takeWhile_append)
            have c2: "dropWhile is_space (r2 @ tail) = r3 @ tail"
              using ex3 by (auto simp: dropWhile_append r3_def)
            have mt': "matchSentences (body @ tail)
                 = (m @ takeWhile is_space r2) # matchSentences (r3 @ tail)"
              unfolding mt a b c1 c2 m_def by simp
            have len: "length r3 < length body"
              unfolding Cons r3_def r2_def r1_def using length_drop_drop by simp
            from less [OF len] show ?thesis
            proof (elim disjE conjE exE)
              assume "matchSentences r3 = []" "matchSentences (r3 @ tail) = []"
              then have "matchSentences (body @ tail)
                 = butlast (matchSentences body) @ [last (matchSentences body) @ []]"
                unfolding mb mt' by simp
              then show ?thesis unfolding mb by (metis empty_iff list.set(1) list.distinct(1))
            next
              fix w
              assume h: "matchSentences r3 \<noteq> []" "\<forall>c\<in>set w. is_space c"
                "matchSentences (r3 @ tail)
                   = butlast (matchSentences r3) @ [last (matchSentences r3) @ w]"
              then have "matchSentences (body @ tail)
                 = butlast (matchSentences body) @ [last (matchSentences body) @ w]"
                unfolding mb mt' by simp
              then show ?thesis using h(2) unfolding mb by blast
            qed
          qed
        qed
      qed
    qed
  qed
qed

lemma trim_append_spaces:
  assumes "\<forall>c\<in>set w. is_space c"
  shows "trim (y @ w) = trim y"
proof (cases "\<forall>c\<in>set y. is_space c")
  case True
  then have "trim y = []" and "trim (y @ w) = []"
    using assms by (auto simp: trim_eq_Nil)
  then show ?thesis by simp
next
  case False
  then have d: "dropWhile is_space (y @ w) = dropWhile is_space y @ w"
    by (auto simp: dropWhile_append)
  have "\<forall>c\<in>set (rev w). is_space c" using assms by simp
  then have "dropWhile is_space (rev w @ rev (dropWhile is_space y))
             = dropWhile is_space (rev (dropWhile is_space y))"
    by (intro dropWhile_append2) simp
  then show ?thesis by (simp add: trim_def d)
qed

lemma splitStep_append_spaces:
  assumes "\<forall>c\<in>set w. is_space c"
  shows "splitStep st (x @ w)
         = (case splitStep st x of (ps, cur, wc) \<Rightarrow> (ps, cur @ w, wc))"
  using trim_append_spaces [OF assms, of x]
  by (cases st) (simp add: splitStep_def Let_def)

lemma splitStep_current:
  "\<exists>ps cur0 wc. splitStep st x = (ps, cur0 @ x, wc)"
  by (cases st) (auto simp: splitStep_def Let_def)

lemma intelligentSplit_append_tail:
  assumes m: "matchSentences body \<noteq> []"
    and tail: "\<forall>c\<in>set tail. \<not> is_terminator c"
  shows "intelligentSplit (body @ tail) = intelligentSplit body"
proof -
  define S where "S = matchSentences body"
  from matchSentences_append_tail [OF tail, of body] m
  obtain w where w: "\<forall>c\<in>set w. is_space c"
    and mt: "matchSentences (body @ tail) = butlast S @ [last S @ w]"
    unfolding S_def by blast
  have S: "S = butlast S @ [last S]" using m by (simp add: S_def)
  have s1: "sentencesOf body = butlast S @ [last S]"
    using m S by (simp add: sentencesOf_def S_def)
  have s2: "sentencesOf (body @ tail) = butlast S @ [last S @ w]"
    using mt by (simp add: sentencesOf_def)
  define st where "st = foldl splitStep ([], [], 0) (butlast S)"
  obtain ps cur0 wc where step: "splitStep st (last S) = (ps, cur0 @ last S, wc)"
    using splitStep_current by blast
  have f1: "foldl splitStep ([], [], 0) (sentencesOf body) = (ps, cur0 @ last S, wc)"
    unfolding s1 by (simp add: st_def [symmetric] step)
  have f2: "foldl splitStep ([], [], 0) (sentencesOf (body @ tail))
            = (ps, (cur0 @ last S) @ w, wc)"
    unfolding s2 by (simp add: st_def [symmetric] splitStep_append_spaces [OF w] step)
  have "last S \<in> set (matchSentences body)" using m by (simp add: S_def)
  then obtain c where c: "c \<in> set (last S)" "is_terminator c"
    using matchSentences_has_terminator by blast
  then have "\<not> (\<forall>c\<in>set (cur0 @ last S). is_space c)"
    using terminator_not_space by auto
  then have ne: "trim (cur0 @ last S) \<noteq> []" by (simp only: trim_eq_Nil not_False_eq_True)
  have tw: "trim (cur0 @ last S @ w) = trim (cur0 @ last S)"
    using trim_append_spaces [OF w, of "cur0 @ last S"] by simp
  show ?thesis
    unfolding intelligentSplit_def f1 f2 using ne by (simp add: tw Let_def)
qed

lemma intelligentSplit_no_terminator:
  assumes "\<forall>c\<in>set t. \<not> is_terminator c"
  shows "intelligentSplit t = [if trim t = [] then t else trim t]"
proof -
  have "sentencesOf t = [t]"
    using assms by (simp add: sentencesOf_def matchSentences_no_terminator)
  then show ?thesis
    by (simp add: intelligentSplit_def splitStep_def Let_def)
qed

lemma matchSentences_One_Two: "matchSentences (js ''One. Two'') = [js ''One. '']"
  by (simp add: js_def is_terminator_def is_space_def)

lemma intelligentSplit_One_Two: "intelligentSplit (js ''One. Two'') = [js ''One.'']"
  by (simp add: intelligentSplit_def sentencesOf_def matchSentences_One_Two splitStep_def
      Let_def)
   (simp add: js_def trim_def is_space_def)

text \<open>
  Claim C10, as stated, fails on a text of white space only: it holds no terminator, and
  the paragraph returned is the text itself, not the trimmed (empty) text.
\<close>

theorem intelligentSplit_blank_not_trimmed:
  "filter is_terminator (js '' '') = []
   \<and> intelligentSplit (js '' '') = [js '' '']
   \<and> intelligentSplit (js '' '') \<noteq> [trim (js '' '')]"
  by (simp add: intelligentSplit_def sentencesOf_def splitStep_def Let_def js_def
      is_terminator_def trim_def is_space_def)

text \<open>
  Claim C10, amended. Appending text without a terminator to a text in which the sentence
  pattern matches at least once (a run of non-terminators followed by a terminator) does
  not change the result of \<open>intelligentSplit\<close>: the unterminated tail is dropped, as in
  "One. Two", which yields the single paragraph "One.". For a text without any terminator
  the result is one paragraph: the trimmed text when the text is not blank, and the text
  itself, untrimmed, when it is blank.
\<close>

theorem intelligentSplit_tail_dropped:
  "(matchSentences body \<noteq> [] \<and> list_all (\<lambda>c. \<not> is_terminator c) tail
      \<longrightarrow> intelligentSplit (body @ tail) = intelligentSplit body)
   \<and> (list_all (\<lambda>c. \<not> is_terminator c) t
      \<longrightarrow> intelligentSplit t = [if trim t = [] then t else trim t])
   \<and> intelligentSplit (js ''One. Two'') = [js ''One.'']"
  using intelligentSplit_append_tail [of body tail] intelligentSplit_no_terminator [of t]
    intelligentSplit_One_Two
  by (simp add: list_all_iff)

theorem intelligentSplit_tail_dropped_witness:
  "matchSentences (js ''One.'') \<noteq> []
   \<and> list_all (\<lambda>c. \<not> is_terminator c) (js '' Two'')
   \<and> intelligentSplit (js ''One.'' @ js '' Two'') = intelligentSplit (js ''One.'')
   \<and> list_all (\<lambda>c. \<not> is_terminator c) (js ''Two'')
   \<and> intelligentSplit (js ''Two'') = [js ''Two'']"
proof -
  have a: "matchSentences (js ''One.'') \<noteq> []"
    by (simp add: js_def is_terminator_def is_space_def)
  have b: "list_all (\<lambda>c. \<not> is_terminator c) (js '' Two'')"
    by (simp add: js_def is_terminator_def)
  have c: "list_all (\<lambda>c. \<not> is_terminator c) (js ''Two'')"
    by (simp add: js_def is_terminator_def)
  have d: "trim (js ''Two'') = js ''Two''"
    by (simp add: js_def trim_def is_space_def)
  have e: "js ''Two'' \<noteq> []" by (simp add: js_def)
  show ?thesis
    using intelligentSplit_tail_dropped [of "js ''One.''" "js '' Two''" "js ''Two''"] a b c
    by (simp only: d e if_False simp_thms)
qed

section \<open>Properties of the playback state machine\<close>

subsection \<open>What each operation leaves alone\<close>

lemma pause_fields [simp]:
  "words (pause s) = words s"
  "paragraphs (pause s) = paragraphs s"
  "currentWordIndex (pause s) = currentWordIndex s"
  "currentParagraphIndex (pause s) = currentParagraphIndex s"
  "hasStarted (pause s) = hasStarted s"
  "wpm (pause s) = wpm s"
  "sentencePause (pause s) = sentencePause s"
  "display (pause s) = display s"
  "textInput (pause s) = textInput s"
  "nextTimerId (pause s) = nextTimerId s"
  "isPlaying (pause s) = False"
  "isPaused (pause s) = True"
  by (simp_all add: pause_def clearTimeout_def updateStatus_def Let_def split: option.splits)

lemma timers_pause_subset: "set (timers (pause s)) \<subseteq> set (timers s)"
  by (auto simp: pause_def clearTimeout_def updateStatus_def Let_def split: option.splits)

lemma scheduleNextWord_fields [simp]:
  "words (scheduleNextWord s) = words s"
  "paragraphs (scheduleNextWord s) = paragraphs s"
  "currentWordIndex (scheduleNextWord s) = currentWordIndex s"
  "currentParagraphIndex (scheduleNextWord s) = currentParagraphIndex s"
  "hasStarted (scheduleNextWord s) = hasStarted s"
  "isPlaying (scheduleNextWord s) = isPlaying s"
  "isPaused (scheduleNextWord s) = isPaused s"
  "wpm (scheduleNextWord s) = wpm s"
  "sentencePause (scheduleNextWord s) = sentencePause s"
  "display (scheduleNextWord s) = display s"
  "textInput (scheduleNextWord s) = textInput s"
  "statusText (scheduleNextWord s) = statusText s"
  "statusBreak (scheduleNextWord s) = statusBreak s"
  "statusHidden (scheduleNextWord s) = statusHidden s"
  "sentencePauseTimeoutId (scheduleNextWord s) = sentencePauseTimeoutId s"
  by (simp_all add: scheduleNextWord_def setTimeout_def)

lemma scheduleNextWord_timers:
  "isPlaying s \<Longrightarrow>
   timers (scheduleNextWord s)
     = timers s @ [\<lparr>timerId = nextTimerId s, delay = baseInterval s,
                     callback = (if needsSentencePause s then ClearThenWait else Advance)\<rparr>]
   \<and> intervalId (scheduleNextWord s) = Some (nextTimerId s)
   \<and> nextTimerId (scheduleNextWord s) = nextTimerId s + 1"
  by (simp add: scheduleNextWord_def setTimeout_def)

lemma scheduleNextWord_not_playing: "\<not> isPlaying s \<Longrightarrow> scheduleNextWord s = s"
  by (simp add: scheduleNextWord_def)

lemma play_fields [simp]:
  "words (play s) = words s"
  "paragraphs (play s) = paragraphs s"
  "currentWordIndex (play s) = currentWordIndex s"
  "currentParagraphIndex (play s) = currentParagraphIndex s"
  "hasStarted (play s) = hasStarted s"
  "wpm (play s) = wpm s"
  "sentencePause (play s) = sentencePause s"
  "display (play s) = display s"
  "textInput (play s) = textInput s"
  by (simp_all add: play_def hideStatus_def)

lemma play_isPlaying:
  "isPlaying (play s) = (isPlaying s \<or> currentWordIndex s < int (length (words s)))"
  by (auto simp: play_def hideStatus_def)

subsection \<open>The stored model is well formed\<close>

lemma p_words_nonempty_parsed:
  assumes "p \<in> set (parsedParagraphs t)"
  shows "p_words p \<noteq> []"
proof -
  have "p_words p \<in> set (map extractWords (paragraphTexts t))"
    using assms p_words_parsed [of t] by (metis image_eqI set_map)
  then obtain x where x: "x \<in> set (paragraphTexts t)" "p_words p = extractWords x"
    by auto
  then obtain l where l: "x = trim l" "trim l \<noteq> []"
    by (auto simp: paragraphTexts_def)
  then obtain c where "c \<in> set l" "\<not> is_space c"
    using trim_eq_Nil by blast
  then have "c \<in> set (trim l)" by (simp add: mem_trim)
  then show ?thesis using x l \<open>\<not> is_space c\<close> extractWords_not_Nil by metis
qed

lemma wf_model_parsed:
  assumes "flattenWords (parsedParagraphs t) \<noteq> []"
  shows "wf_model (parsedParagraphs t) (flattenWords (parsedParagraphs t))"
proof -
  have "parsedParagraphs t \<noteq> []" using assms by (auto simp: flattenWords_def)
  then show ?thesis
    unfolding wf_model_def
    using startWordIndex_parsed [of _ t] p_words_nonempty_parsed [of _ t] by blast
qed

lemma length_flattenWords:
  "int (length (flattenWords ps)) = (\<Sum>j<length ps. int (length (p_words (ps ! j))))"
proof -
  have "length (flattenWords ps) = sum_list (map (\<lambda>p. length (p_words p)) ps)"
    by (simp add: flattenWords_def length_concat comp_def)
  also have "\<dots> = (\<Sum>j<length ps. length (p_words (ps ! j)))"
    by (simp add: sum_list_sum_nth atLeast0LessThan)
  finally show ?thesis by simp
qed

lemma wf_end:
  assumes "wf_model ps ws" "i < length ps"
  shows "paragraphEndIndex (ps ! i) = (\<Sum>j<Suc i. int (length (p_words (ps ! j))))"
  using assms by (simp add: wf_model_def paragraphEndIndex_def)

lemma wf_end_le:
  assumes "wf_model ps ws" "i < length ps"
  shows "paragraphEndIndex (ps ! i) \<le> int (length ws)"
proof -
  have "(\<Sum>j<Suc i. int (length (p_words (ps ! j))))
        \<le> (\<Sum>j<length ps. int (length (p_words (ps ! j))))"
    using assms(2) by (intro sum_mono2) auto
  then show ?thesis
    using wf_end [OF assms] assms(1) length_flattenWords [of ps] by (simp add: wf_model_def)
qed

lemma wf_end_last:
  assumes "wf_model ps ws" "Suc i = length ps"
  shows "paragraphEndIndex (ps ! i) = int (length ws)"
  using wf_end [OF assms(1), of i] assms length_flattenWords [of ps]
  by (simp add: wf_model_def)

lemma wf_start_0:
  assumes "wf_model ps ws"
  shows "startWordIndex (ps ! 0) = 0"
  using assms by (auto simp: wf_model_def)

lemma wf_start_nonneg:
  assumes "wf_model ps ws" "i < length ps"
  shows "0 \<le> startWordIndex (ps ! i)"
  using assms by (simp add: wf_model_def sum_nonneg)

lemma wf_start_less_end:
  assumes "wf_model ps ws" "i < length ps"
  shows "startWordIndex (ps ! i) < paragraphEndIndex (ps ! i)"
proof -
  have "ps ! i \<in> set ps" using assms(2) by simp
  then have "p_words (ps ! i) \<noteq> []" using assms(1) by (simp add: wf_model_def)
  then show ?thesis by (simp add: paragraphEndIndex_def)
qed

lemma wf_words_nonempty:
  assumes "wf_model ps ws"
  shows "0 < length ws"
proof -
  have "0 < length ps" using assms by (simp add: wf_model_def)
  from wf_start_less_end [OF assms this] wf_start_0 [OF assms] wf_end_le [OF assms this]
  have "0 < int (length ws)" by linarith
  then show ?thesis by simp
qed

subsection \<open>Invariants do not depend on the display, the status line or the settings\<close>

lemma inv_timers_frame [simp]:
  "inv_timers (s\<lparr>display := d\<rparr>) = inv_timers s"
  "inv_timers (s\<lparr>currentWordIndex := k\<rparr>) = inv_timers s"
  "inv_timers (s\<lparr>currentParagraphIndex := k\<rparr>) = inv_timers s"
  "inv_timers (s\<lparr>textInput := x\<rparr>) = inv_timers s"
  "inv_timers (s\<lparr>wpm := v\<rparr>) = inv_timers s"
  "inv_timers (s\<lparr>sentencePause := v\<rparr>) = inv_timers s"
  "inv_timers (updateStatus m b s) = inv_timers s"
  "inv_timers (hideStatus s) = inv_timers s"
  by (simp_all add: inv_timers_def updateStatus_def hideStatus_def)

lemma inv_position_frame [simp]:
  "inv_position (s\<lparr>display := d\<rparr>) = inv_position s"
  "inv_position (s\<lparr>textInput := x\<rparr>) = inv_position s"
  "inv_position (s\<lparr>wpm := v\<rparr>) = inv_position s"
  "inv_position (s\<lparr>sentencePause := v\<rparr>) = inv_position s"
  "inv_position (updateStatus m b s) = inv_position s"
  "inv_position (hideStatus s) = inv_position s"
  by (simp_all add: inv_position_def updateStatus_def hideStatus_def)

lemma inv_range_frame [simp]:
  "inv_range (s\<lparr>display := d\<rparr>) = inv_range s"
  "inv_range (s\<lparr>textInput := x\<rparr>) = inv_range s"
  "inv_range (s\<lparr>wpm := v\<rparr>) = inv_range s"
  "inv_range (s\<lparr>sentencePause := v\<rparr>) = inv_range s"
  "inv_range (updateStatus m b s) = inv_range s"
  "inv_range (hideStatus s) = inv_range s"
  by (simp_all add: inv_range_def updateStatus_def hideStatus_def)

lemma displayCurrentWord_ok:
  "0 \<le> currentWordIndex s \<Longrightarrow> \<exists>d. displayCurrentWord s = Returned (s\<lparr>display := d\<rparr>)"
proof (cases "currentWordIndex s \<ge> int (length (words s))")
  case True
  then have "displayCurrentWord s = Returned (s\<lparr>display := display s\<rparr>)"
    by (simp add: displayCurrentWord_def)
  then show ?thesis by blast
next
  case False
  assume "0 \<le> currentWordIndex s"
  with False have "displayCurrentWord s
      = Returned (s\<lparr>display := splitWordAtORP (words s ! nat (currentWordIndex s))\<rparr>)"
    by (simp add: displayCurrentWord_def at_index_def)
  then show ?thesis by blast
qed

subsection \<open>Timers\<close>

lemma pause_timers: "inv_timers s \<Longrightarrow> timers (pause s) = []"
  by (auto simp: inv_timers_def pause_def clearTimeout_def updateStatus_def Let_def
      split: option.splits)

lemma inv_timers_pause: "inv_timers s \<Longrightarrow> inv_timers (pause s)"
  using pause_timers [of s] by (simp add: inv_timers_def)

lemma inv_timers_schedule:
  "inv_timers s \<Longrightarrow> timers s = [] \<Longrightarrow> inv_timers (scheduleNextWord s)"
  by (cases "isPlaying s")
     (simp_all add: scheduleNextWord_not_playing scheduleNextWord_timers inv_timers_def)

lemma inv_timers_play: "inv_timers s \<Longrightarrow> inv_timers (play s)"
proof (cases "isPlaying s \<or> currentWordIndex s \<ge> int (length (words s))")
  case True
  then show "inv_timers s \<Longrightarrow> inv_timers (play s)" by (simp add: play_def)
next
  case False
  assume i: "inv_timers s"
  let ?s1 = "hideStatus (s\<lparr>isPlaying := True, isPaused := False\<rparr>)"
  have "timers s = []" using i False by (simp add: inv_timers_def)
  then have "inv_timers ?s1" and "timers ?s1 = []"
    using i by (simp_all add: inv_timers_def hideStatus_def)
  then have "inv_timers (scheduleNextWord ?s1)" by (rule inv_timers_schedule)
  then show ?thesis using False by (simp add: play_def)
qed

subsection \<open>Position\<close>

lemma inv_position_pause: "inv_position s \<Longrightarrow> inv_position (pause s)"
  by (simp add: inv_position_def)

lemma inv_range_pause: "inv_range s \<Longrightarrow> inv_range (pause s)"
  by (simp add: inv_range_def)

lemma inv_position_play: "inv_position s \<Longrightarrow> hasStarted s \<Longrightarrow> inv_position (play s)"
  by (simp add: inv_position_def play_isPlaying)

lemma inv_range_play:
  "inv_range s \<Longrightarrow>
   currentWordIndex s < paragraphEndIndex (paragraphs s ! nat (currentParagraphIndex s)) \<Longrightarrow>
   inv_range (play s)"
  by (simp add: inv_range_def play_isPlaying)

lemma inv_position_schedule: "inv_position s \<Longrightarrow> inv_position (scheduleNextWord s)"
  by (simp add: inv_position_def)

lemma inv_range_schedule: "inv_range s \<Longrightarrow> inv_range (scheduleNextWord s)"
  by (simp add: inv_range_def)

lemma current_paragraph:
  assumes "inv_position s" "hasStarted s"
  shows "at_index (paragraphs s) (currentParagraphIndex s)
         = Some (paragraphs s ! nat (currentParagraphIndex s))"
    and "nat (currentParagraphIndex s) < length (paragraphs s)"
    and "wf_model (paragraphs s) (words s)"
  using assms by (simp_all add: inv_position_def at_index_def nat_less_iff)

text \<open>What \<open>advanceWord\<close> does in a started state.\<close>

lemma advanceWord_started:
  assumes "inv_position s" "hasStarted s"
  shows "advanceWord s =
     (if currentWordIndex s + 1 \<ge> paragraphEndIndex (paragraphs s ! nat (currentParagraphIndex s))
      then Returned
             ((if currentParagraphIndex s < int (length (paragraphs s)) - 1
               then showParagraphBreak else showEndOfText)
                (pause (s\<lparr>currentWordIndex := currentWordIndex s + 1\<rparr>)))
      else Returned
             (scheduleNextWord
                (s\<lparr>currentWordIndex := currentWordIndex s + 1,
                   display := splitWordAtORP (words s ! nat (currentWordIndex s + 1))\<rparr>)))"
proof -
  let ?p = "paragraphs s ! nat (currentParagraphIndex s)"
  let ?s1 = "s\<lparr>currentWordIndex := currentWordIndex s + 1\<rparr>"
  have p: "at_index (paragraphs s) (currentParagraphIndex s) = Some ?p"
    using current_paragraph(1) [OF assms] by simp
  show ?thesis
  proof (cases "currentWordIndex s + 1 \<ge> paragraphEndIndex ?p")
    case True
    then show ?thesis by (simp add: advanceWord_def p Let_def)
  next
    case False
    have "paragraphEndIndex ?p \<le> int (length (words s))"
      using wf_end_le current_paragraph(2,3) [OF assms] by blast
    then have lt: "currentWordIndex s + 1 < int (length (words s))" using False by simp
    have ge: "0 \<le> currentWordIndex s + 1" using assms by (simp add: inv_position_def)
    have "displayCurrentWord ?s1
          = Returned (?s1\<lparr>display := splitWordAtORP (words s ! nat (currentWordIndex s + 1))\<rparr>)"
      using lt ge by (simp add: displayCurrentWord_def at_index_def)
    then show ?thesis using False by (simp add: advanceWord_def p Let_def)
  qed
qed

lemma inv_advanceWord:
  assumes t: "inv_timers s" and p: "inv_position s" and pl: "isPlaying s" and e: "timers s = []"
  shows "inv_timers (state_of (advanceWord s)) \<and> inv_position (state_of (advanceWord s))"
proof -
  have hs: "hasStarted s" and lt: "currentWordIndex s < int (length (words s))"
    using p pl by (simp_all add: inv_position_def)
  let ?p = "paragraphs s ! nat (currentParagraphIndex s)"
  let ?s1 = "s\<lparr>currentWordIndex := currentWordIndex s + 1\<rparr>"
  have le: "paragraphEndIndex ?p \<le> int (length (words s))"
    using wf_end_le current_paragraph(2,3) [OF p hs] by blast
  show ?thesis
  proof (cases "currentWordIndex s + 1 \<ge> paragraphEndIndex ?p")
    case True
    have "inv_timers (pause ?s1)" using t by (simp add: inv_timers_pause)
    moreover have "inv_position ?s1 \<or> True" by simp
    have "inv_position (pause ?s1)"
      using p hs lt by (simp add: inv_position_def)
    ultimately show ?thesis
      using True by (simp add: advanceWord_started [OF p hs] showParagraphBreak_def showEndOfText_def)
  next
    case False
    let ?s2 = "s\<lparr>currentWordIndex := currentWordIndex s + 1,
                  display := splitWordAtORP (words s ! nat (currentWordIndex s + 1))\<rparr>"
    have "inv_timers ?s2" "timers ?s2 = []" using t e by (simp_all add: inv_timers_def)
    then have a: "inv_timers (scheduleNextWord ?s2)" by (rule inv_timers_schedule)
    have "inv_position ?s2" using p hs False le by (simp add: inv_position_def)
    then have b: "inv_position (scheduleNextWord ?s2)" by (rule inv_position_schedule)
    show ?thesis using False a b by (simp add: advanceWord_started [OF p hs])
  qed
qed

lemma inv_range_advanceWord:
  assumes p: "inv_position s" and r: "inv_range s" and pl: "isPlaying s"
  shows "inv_range (state_of (advanceWord s))"
proof -
  have hs: "hasStarted s" using p pl by (simp add: inv_position_def)
  let ?p = "paragraphs s ! nat (currentParagraphIndex s)"
  have lt: "currentWordIndex s < paragraphEndIndex ?p"
    and ge: "startWordIndex ?p \<le> currentWordIndex s"
    using r hs pl by (simp_all add: inv_range_def)
  show ?thesis
  proof (cases "currentWordIndex s + 1 \<ge> paragraphEndIndex ?p")
    case True
    have "inv_range (pause (s\<lparr>currentWordIndex := currentWordIndex s + 1\<rparr>))"
      using lt ge hs True by (simp add: inv_range_def)
    then show ?thesis
      using True
      by (simp add: advanceWord_started [OF p hs] showParagraphBreak_def showEndOfText_def)
  next
    case False
    have "inv_range (s\<lparr>currentWordIndex := currentWordIndex s + 1,
                  display := splitWordAtORP (words s ! nat (currentWordIndex s + 1))\<rparr>)"
      using lt ge hs False by (simp add: inv_range_def)
    then show ?thesis
      using False by (simp add: advanceWord_started [OF p hs] inv_range_schedule)
  qed
qed

lemma inv_timers_frame2 [simp]:
  "inv_timers (s\<lparr>words := ws\<rparr>) = inv_timers s"
  "inv_timers (s\<lparr>paragraphs := ps\<rparr>) = inv_timers s"
  "inv_timers (s\<lparr>hasStarted := b\<rparr>) = inv_timers s"
  "inv_timers (s\<lparr>isPaused := b\<rparr>) = inv_timers s"
  "inv_timers (clearWordDisplay s) = inv_timers s"
  by (simp_all add: inv_timers_def clearWordDisplay_def)

lemma inv_position_frame2 [simp]:
  "inv_position (s\<lparr>timers := ts\<rparr>) = inv_position s"
  "inv_position (s\<lparr>nextTimerId := n\<rparr>) = inv_position s"
  "inv_position (s\<lparr>intervalId := i\<rparr>) = inv_position s"
  "inv_position (s\<lparr>sentencePauseTimeoutId := i\<rparr>) = inv_position s"
  "inv_position (s\<lparr>isPaused := b\<rparr>) = inv_position s"
  "inv_position (clearWordDisplay s) = inv_position s"
  by (simp_all add: inv_position_def clearWordDisplay_def)

lemma inv_range_frame2 [simp]:
  "inv_range (s\<lparr>timers := ts\<rparr>) = inv_range s"
  "inv_range (s\<lparr>nextTimerId := n\<rparr>) = inv_range s"
  "inv_range (s\<lparr>intervalId := i\<rparr>) = inv_range s"
  "inv_range (s\<lparr>sentencePauseTimeoutId := i\<rparr>) = inv_range s"
  "inv_range (s\<lparr>isPaused := b\<rparr>) = inv_range s"
  "inv_range (clearWordDisplay s) = inv_range s"
  by (simp_all add: inv_range_def clearWordDisplay_def)

subsection \<open>Display, then play\<close>

lemma inv_display_play:
  assumes "inv_timers s" "inv_position s" "hasStarted s"
  shows "inv_timers (state_of (and_then (displayCurrentWord s) (\<lambda>s3. Returned (play s3))))
       \<and> inv_position (state_of (and_then (displayCurrentWord s) (\<lambda>s3. Returned (play s3))))"
proof -
  have "0 \<le> currentWordIndex s" using assms by (simp add: inv_position_def)
  then obtain d where d: "displayCurrentWord s = Returned (s\<lparr>display := d\<rparr>)"
    using displayCurrentWord_ok by blast
  have "inv_timers (play (s\<lparr>display := d\<rparr>))"
    using assms(1) by (simp add: inv_timers_play)
  moreover have "inv_position (play (s\<lparr>display := d\<rparr>))"
    using assms(2,3) by (simp add: inv_position_play)
  ultimately show ?thesis by (simp add: d)
qed

lemma inv_range_display_play:
  assumes "inv_range s" "0 \<le> currentWordIndex s"
    "currentWordIndex s < paragraphEndIndex (paragraphs s ! nat (currentParagraphIndex s))"
  shows "inv_range (state_of (and_then (displayCurrentWord s) (\<lambda>s3. Returned (play s3))))"
proof -
  obtain d where d: "displayCurrentWord s = Returned (s\<lparr>display := d\<rparr>)"
    using displayCurrentWord_ok assms(2) by blast
  have "inv_range (play (s\<lparr>display := d\<rparr>))"
    using assms(1,3) by (simp add: inv_range_play)
  then show ?thesis by (simp add: d)
qed

lemma inv_display_status:
  assumes "inv_timers s" "inv_position s" "0 \<le> currentWordIndex s"
  shows "inv_timers (state_of (and_then (displayCurrentWord s)
            (\<lambda>s3. Returned (updateStatus m b s3))))
       \<and> inv_position (state_of (and_then (displayCurrentWord s)
            (\<lambda>s3. Returned (updateStatus m b s3))))
       \<and> inv_timers (state_of (displayCurrentWord s))
       \<and> inv_position (state_of (displayCurrentWord s))"
proof -
  obtain d where d: "displayCurrentWord s = Returned (s\<lparr>display := d\<rparr>)"
    using displayCurrentWord_ok assms(3) by blast
  show ?thesis using assms(1,2) by (simp add: d)
qed

subsection \<open>Timer callbacks\<close>

lemma fire_cases:
  assumes "inv_timers s"
  shows "fire i s = Returned s
       \<or> (\<exists>t. timers s = [t] \<and> isPlaying s
              \<and> fire i s = run_callback (callback t) (s\<lparr>timers := []\<rparr>))"
proof (cases "find (\<lambda>t. timerId t = i) (timers s)")
  case None
  then show ?thesis by (simp add: fire_def)
next
  case (Some t)
  then have ne: "timers s \<noteq> []" by auto
  then obtain t' where t': "timers s = [t']" using assms by (auto simp: inv_timers_def)
  with Some have tt: "t' = t" "timerId t = i" by (auto split: if_splits)
  have pl: "isPlaying s" using assms ne by (auto simp: inv_timers_def)
  have "clearTimeout i s = s\<lparr>timers := []\<rparr>"
    using t' tt by (simp add: clearTimeout_def)
  then show ?thesis using Some t' tt pl by (simp add: fire_def)
qed

lemma inv_run_callback:
  assumes t: "inv_timers s" and p: "inv_position s" and pl: "isPlaying s" and e: "timers s = []"
  shows "inv_timers (state_of (run_callback cb s)) \<and> inv_position (state_of (run_callback cb s))"
proof (cases cb)
  case ClearThenWait
  have "inv_timers (state_of (run_callback ClearThenWait s))"
    using t pl e by (simp add: run_callback_def setTimeout_def inv_timers_def clearWordDisplay_def)
  moreover have "inv_position (state_of (run_callback ClearThenWait s))"
    using p pl by (simp add: run_callback_def setTimeout_def inv_position_def clearWordDisplay_def)
  ultimately show ?thesis using ClearThenWait by simp
next
  case Advance
  then show ?thesis using inv_advanceWord [OF t p pl e] pl by (simp add: run_callback_def)
qed

lemma inv_range_run_callback:
  assumes p: "inv_position s" and r: "inv_range s" and pl: "isPlaying s"
  shows "inv_range (state_of (run_callback cb s))"
proof (cases cb)
  case ClearThenWait
  have "inv_range (state_of (run_callback ClearThenWait s))"
    using r pl by (simp add: run_callback_def setTimeout_def inv_range_def clearWordDisplay_def)
  then show ?thesis using ClearThenWait by simp
next
  case Advance
  then show ?thesis using inv_range_advanceWord [OF p r pl] pl by (simp add: run_callback_def)
qed

lemma inv_fire:
  assumes t: "inv_timers s" and p: "inv_position s"
  shows "inv_timers (state_of (fire i s)) \<and> inv_position (state_of (fire i s))"
  using fire_cases [OF t, of i]
proof (elim disjE exE conjE)
  assume "fire i s = Returned s"
  then show ?thesis using t p by simp
next
  fix x
  assume h: "timers s = [x]" "isPlaying s" "fire i s = run_callback (callback x) (s\<lparr>timers := []\<rparr>)"
  have "inv_timers (s\<lparr>timers := []\<rparr>)" using t by (simp add: inv_timers_def)
  moreover have "inv_position (s\<lparr>timers := []\<rparr>)" using p by simp
  ultimately show ?thesis
    using inv_run_callback [of "s\<lparr>timers := []\<rparr>" "callback x"] h by simp
qed

lemma inv_range_fire:
  assumes t: "inv_timers s" and p: "inv_position s" and r: "inv_range s"
  shows "inv_range (state_of (fire i s))"
  using fire_cases [OF t, of i]
proof (elim disjE exE conjE)
  assume "fire i s = Returned s"
  then show ?thesis using r by simp
next
  fix x
  assume h: "timers s = [x]" "isPlaying s" "fire i s = run_callback (callback x) (s\<lparr>timers := []\<rparr>)"
  show ?thesis
    using inv_range_run_callback [of "s\<lparr>timers := []\<rparr>" "callback x"] h p r by simp
qed

subsection \<open>Handlers\<close>

lemma not_started_not_playing: "inv_position s \<Longrightarrow> \<not> hasStarted s \<Longrightarrow> \<not> isPlaying s"
  by (auto simp: inv_position_def)

lemma inv_startReading:
  assumes t: "inv_timers s" and p: "inv_position s" and ns: "\<not> hasStarted s"
  shows "inv_timers (state_of (startReading s)) \<and> inv_position (state_of (startReading s))
       \<and> inv_range (state_of (startReading s))"
proof (cases "trim (textInput s) = []")
  case True
  have "inv_range s" using ns by (simp add: inv_range_def)
  then show ?thesis using True t p by (simp add: startReading_def Let_def)
next
  case False
  let ?ps = "parsedParagraphs (textInput s)"
  let ?s1 = "s\<lparr>paragraphs := ?ps, words := flattenWords ?ps\<rparr>"
  have pt: "parseText (textInput s) s = (flattenWords ?ps \<noteq> [], ?s1)"
    by (simp add: parseText_def Let_def)
  have np: "\<not> isPlaying s" using p ns by (rule not_started_not_playing)
  show ?thesis
  proof (cases "flattenWords ?ps = []")
    case True
    have "inv_position ?s1" using ns np by (simp add: inv_position_def)
    moreover have "inv_range ?s1" using ns by (simp add: inv_range_def)
    ultimately show ?thesis using False True t by (simp add: startReading_def pt Let_def)
  next
    case ne: False
    let ?s2 = "?s1\<lparr>currentWordIndex := 0, currentParagraphIndex := 0, hasStarted := True\<rparr>"
    have wf: "wf_model ?ps (flattenWords ?ps)" using ne by (rule wf_model_parsed)
    then have len: "0 < length ?ps" by (simp add: wf_model_def)
    have a: "inv_timers ?s2" using t by simp
    have b: "inv_position ?s2" using wf len np by (simp add: inv_position_def)
    have lt: "startWordIndex (?ps ! 0) < paragraphEndIndex (?ps ! 0)"
      using wf len by (rule wf_start_less_end)
    have z: "startWordIndex (?ps ! 0) = 0" using wf by (rule wf_start_0)
    have c: "inv_range ?s2" using lt z np by (simp add: inv_range_def)
    have "startReading s = and_then (displayCurrentWord ?s2) (\<lambda>s3. Returned (play s3))"
      using False ne by (simp add: startReading_def pt Let_def)
    then show ?thesis
      using inv_display_play [OF a b] inv_range_display_play [OF c] lt z by simp
  qed
qed

lemma inv_reset:
  assumes "inv_timers s"
  shows "inv_timers (reset s) \<and> inv_position (reset s) \<and> inv_range (reset s)"
proof -
  have "inv_timers (pause s)" using assms by (rule inv_timers_pause)
  then show ?thesis
    by (simp add: reset_def inv_position_def inv_range_def clearWordDisplay_def Let_def)
qed

lemma inv_onTextChange:
  assumes "inv_timers s" "inv_position s" "inv_range s \<or> hasStarted s"
  shows "inv_timers (onTextChange s) \<and> inv_position (onTextChange s)
       \<and> inv_range (onTextChange s)"
proof (cases "hasStarted s")
  case True
  then show ?thesis using inv_reset [OF assms(1)] by (simp add: onTextChange_def Let_def)
next
  case False
  then show ?thesis using assms by (simp add: onTextChange_def Let_def)
qed

lemma inv_restartCurrentParagraph:
  assumes t: "inv_timers s" and p: "inv_position s" and hs: "hasStarted s"
  shows "inv_timers (state_of (restartCurrentParagraph s))
       \<and> inv_position (state_of (restartCurrentParagraph s))
       \<and> inv_range (state_of (restartCurrentParagraph s))"
proof -
  let ?i = "nat (currentParagraphIndex s)"
  let ?p = "paragraphs s ! ?i"
  let ?s1 = "s\<lparr>currentWordIndex := startWordIndex ?p\<rparr>"
  note cp = current_paragraph [OF p hs]
  have lt: "startWordIndex ?p < paragraphEndIndex ?p" using cp(3,2) by (rule wf_start_less_end)
  have ge: "0 \<le> startWordIndex ?p" using cp(3,2) by (rule wf_start_nonneg)
  have le: "paragraphEndIndex ?p \<le> int (length (words s))" using cp(3,2) by (rule wf_end_le)
  have a: "inv_timers ?s1" using t by simp
  have b: "inv_position ?s1" using p hs lt ge le by (simp add: inv_position_def)
  have c: "inv_range ?s1" using hs lt by (simp add: inv_range_def)
  have "restartCurrentParagraph s
        = and_then (displayCurrentWord ?s1) (\<lambda>s1. Returned (play s1))"
    by (simp add: restartCurrentParagraph_def cp(1))
  then show ?thesis
    using inv_display_play [OF a b] inv_range_display_play [OF c] hs lt ge by simp
qed

lemma inv_continueAfterParagraph:
  assumes t: "inv_timers s" and p: "inv_position s" and hs: "hasStarted s"
    and at_end: "currentWordIndex s
                 \<ge> paragraphEndIndex (paragraphs s ! nat (currentParagraphIndex s))"
  shows "inv_timers (state_of (continueAfterParagraph s))
       \<and> inv_position (state_of (continueAfterParagraph s))
       \<and> inv_range (state_of (continueAfterParagraph s))"
proof -
  note cp = current_paragraph [OF p hs]
  have wf: "wf_model (paragraphs s) (words s)" by (rule cp(3))
  have len: "0 < length (paragraphs s)" using wf by (simp add: wf_model_def)
  show ?thesis
  proof (cases "currentParagraphIndex s \<ge> int (length (paragraphs s)) - 1
                \<and> currentWordIndex s \<ge> int (length (words s))")
    case True
    let ?s1 = "s\<lparr>currentWordIndex := 0, currentParagraphIndex := 0\<rparr>"
    have lt: "startWordIndex (paragraphs s ! 0) < paragraphEndIndex (paragraphs s ! 0)"
      using wf len by (rule wf_start_less_end)
    have z: "startWordIndex (paragraphs s ! 0) = 0" using wf by (rule wf_start_0)
    have w: "0 < length (words s)" using wf by (rule wf_words_nonempty)
    have a: "inv_timers ?s1" using t by simp
    have b: "inv_position ?s1" using p hs len w by (simp add: inv_position_def)
    have c: "inv_range ?s1" using hs lt z by (simp add: inv_range_def)
    have "continueAfterParagraph s
          = and_then (displayCurrentWord ?s1) (\<lambda>s3. Returned (play s3))"
      using True by (simp add: continueAfterParagraph_def)
    then show ?thesis
      using inv_display_play [OF a b] inv_range_display_play [OF c] hs lt z by simp
  next
    case False
    have notlast: "currentParagraphIndex s + 1 < int (length (paragraphs s))"
    proof (rule ccontr)
      assume "\<not> currentParagraphIndex s + 1 < int (length (paragraphs s))"
      then have last: "Suc (nat (currentParagraphIndex s)) = length (paragraphs s)"
        using cp(2) p hs by (simp add: inv_position_def)
      then have "paragraphEndIndex (paragraphs s ! nat (currentParagraphIndex s))
                 = int (length (words s))"
        using wf wf_end_last by blast
      then have "currentWordIndex s \<ge> int (length (words s))" using at_end by simp
      moreover have "int (length (paragraphs s)) = int (Suc (nat (currentParagraphIndex s)))"
        using last by simp
      then have "currentParagraphIndex s \<ge> int (length (paragraphs s)) - 1"
        using p hs by (simp add: inv_position_def)
      ultimately show False using False by simp
    qed
    let ?j = "nat (currentParagraphIndex s + 1)"
    let ?q = "paragraphs s ! ?j"
    let ?s1 = "s\<lparr>currentParagraphIndex := currentParagraphIndex s + 1,
                  currentWordIndex := startWordIndex ?q\<rparr>"
    have cpos: "0 \<le> currentParagraphIndex s" using p hs by (simp add: inv_position_def)
    have j: "?j < length (paragraphs s)" using notlast cpos by linarith
    have atq: "at_index (paragraphs s) (currentParagraphIndex s + 1) = Some ?q"
      using notlast cpos by (simp add: at_index_def)
    have lt: "startWordIndex ?q < paragraphEndIndex ?q" using wf j by (rule wf_start_less_end)
    have ge: "0 \<le> startWordIndex ?q" using wf j by (rule wf_start_nonneg)
    have le: "paragraphEndIndex ?q \<le> int (length (words s))" using wf j by (rule wf_end_le)
    have a: "inv_timers ?s1" using t by simp
    have b: "inv_position ?s1" using p hs lt ge le notlast cpos by (simp add: inv_position_def)
    have c: "inv_range ?s1" using hs lt by (simp add: inv_range_def)
    have "continueAfterParagraph s
          = and_then (displayCurrentWord ?s1) (\<lambda>s3. Returned (play s3))"
      using False notlast atq by (simp add: continueAfterParagraph_def Let_def)
    then show ?thesis
      using inv_display_play [OF a b] inv_range_display_play [OF c] hs lt ge by simp
  qed
qed

lemma inv_handleReaderClick:
  assumes t: "inv_timers s" and p: "inv_position s" and r: "inv_range s"
  shows "inv_timers (state_of (handleReaderClick s))
       \<and> inv_position (state_of (handleReaderClick s))
       \<and> inv_range (state_of (handleReaderClick s))"
proof (cases "hasStarted s")
  case False
  then show ?thesis using inv_startReading [OF t p] by (simp add: handleReaderClick_def)
next
  case hs: True
  note cp = current_paragraph [OF p hs]
  show ?thesis
  proof (cases "isPaused s")
    case False
    then show ?thesis
      using hs t p r
      by (simp add: handleReaderClick_def inv_timers_pause inv_position_pause inv_range_pause)
  next
    case True
    show ?thesis
    proof (cases "currentWordIndex s
                  \<ge> paragraphEndIndex (paragraphs s ! nat (currentParagraphIndex s))")
      case at_end: True
      then show ?thesis
        using inv_continueAfterParagraph [OF t p hs] hs True
        by (simp add: handleReaderClick_def cp(1))
    next
      case False
      then show ?thesis
        using hs True t p r
        by (simp add: handleReaderClick_def cp(1) inv_timers_play inv_position_play
            inv_range_play)
    qed
  qed
qed

lemma inv_position_handleReaderClick:
  assumes t: "inv_timers s" and p: "inv_position s"
  shows "inv_timers (state_of (handleReaderClick s))
       \<and> inv_position (state_of (handleReaderClick s))"
proof (cases "hasStarted s")
  case False
  then show ?thesis using inv_startReading [OF t p] by (simp add: handleReaderClick_def)
next
  case hs: True
  note cp = current_paragraph [OF p hs]
  show ?thesis
  proof (cases "isPaused s")
    case False
    then show ?thesis
      using hs t p
      by (simp add: handleReaderClick_def inv_timers_pause inv_position_pause)
  next
    case True
    show ?thesis
    proof (cases "currentWordIndex s
                  \<ge> paragraphEndIndex (paragraphs s ! nat (currentParagraphIndex s))")
      case at_end: True
      then show ?thesis
        using inv_continueAfterParagraph [OF t p hs] hs True
        by (simp add: handleReaderClick_def cp(1))
    next
      case False
      then show ?thesis
        using hs True t p
        by (simp add: handleReaderClick_def cp(1) inv_timers_play inv_position_play)
    qed
  qed
qed

lemma inv_navigatePrev:
  assumes t: "inv_timers s" and p: "inv_position s"
  shows "inv_timers (state_of (navigatePrev s)) \<and> inv_position (state_of (navigatePrev s))"
proof (cases "hasStarted s \<and> currentWordIndex s > 0")
  case False
  then show ?thesis using t p by (auto simp: navigatePrev_def)
next
  case True
  let ?s2 = "(pause s)\<lparr>currentWordIndex := currentWordIndex s - 1\<rparr>"
  have a: "inv_timers ?s2" using t by (simp add: inv_timers_pause)
  have b: "inv_position ?s2" using p True by (simp add: inv_position_def)
  have c: "0 \<le> currentWordIndex ?s2" using True by simp
  show ?thesis
    using inv_display_status [OF a b c] True by (simp add: navigatePrev_def Let_def)
qed

lemma inv_navigateNext:
  assumes t: "inv_timers s" and p: "inv_position s"
  shows "inv_timers (state_of (navigateNext s)) \<and> inv_position (state_of (navigateNext s))"
proof (cases "hasStarted s \<and> currentWordIndex s < int (length (words s)) - 1")
  case False
  then show ?thesis using t p by (auto simp: navigateNext_def)
next
  case True
  let ?s2 = "(pause s)\<lparr>currentWordIndex := currentWordIndex s + 1\<rparr>"
  have a: "inv_timers ?s2" using t by (simp add: inv_timers_pause)
  have b: "inv_position ?s2" using p True by (simp add: inv_position_def)
  have c: "0 \<le> currentWordIndex ?s2" using p True by (simp add: inv_position_def)
  show ?thesis
    using inv_display_status [OF a b c] True by (simp add: navigateNext_def Let_def)
qed

lemma inv_arrowLeft:
  assumes t: "inv_timers s" and p: "inv_position s"
  shows "inv_timers (state_of (onGlobalKeydown False ArrowLeft s))
       \<and> inv_position (state_of (onGlobalKeydown False ArrowLeft s))"
proof (cases "hasStarted s")
  case False
  then show ?thesis using t p by (simp add: onGlobalKeydown_def)
next
  case hs: True
  show ?thesis
  proof (cases "currentWordIndex s > 0")
    case False
    then show ?thesis
      using hs t p by (simp add: onGlobalKeydown_def Let_def inv_timers_pause inv_position_pause)
  next
    case True
    let ?s2 = "(pause s)\<lparr>currentWordIndex := currentWordIndex s - 1\<rparr>"
    have a: "inv_timers ?s2" using t by (simp add: inv_timers_pause)
    have b: "inv_position ?s2" using p True hs by (simp add: inv_position_def)
    have c: "0 \<le> currentWordIndex ?s2" using True by simp
    show ?thesis
      using inv_display_status [OF a b c, of PausedContinue False] True hs
      by (simp add: onGlobalKeydown_def Let_def)
  qed
qed

lemma inv_arrowRight:
  assumes t: "inv_timers s" and p: "inv_position s"
  shows "inv_timers (state_of (onGlobalKeydown False ArrowRight s))
       \<and> inv_position (state_of (onGlobalKeydown False ArrowRight s))"
proof (cases "hasStarted s")
  case False
  then show ?thesis using t p by (simp add: onGlobalKeydown_def)
next
  case hs: True
  show ?thesis
  proof (cases "currentWordIndex s < int (length (words s)) - 1")
    case False
    then show ?thesis
      using hs t p by (simp add: onGlobalKeydown_def Let_def inv_timers_pause inv_position_pause)
  next
    case True
    let ?s2 = "(pause s)\<lparr>currentWordIndex := currentWordIndex s + 1\<rparr>"
    have a: "inv_timers ?s2" using t by (simp add: inv_timers_pause)
    have b: "inv_position ?s2" using p True hs by (simp add: inv_position_def)
    have c: "0 \<le> currentWordIndex ?s2" using p hs by (simp add: inv_position_def)
    show ?thesis
      using inv_display_status [OF a b c, of PausedContinue False] True hs
      by (simp add: onGlobalKeydown_def Let_def)
  qed
qed

lemma inv_onWpmChange:
  assumes t: "inv_timers s" and p: "inv_position s"
  shows "inv_timers (onWpmChange v s) \<and> inv_position (onWpmChange v s)"
proof (cases "isPlaying s")
  case False
  then show ?thesis using t p by (simp add: onWpmChange_def Let_def)
next
  case True
  then have hs: "hasStarted s" using p by (simp add: inv_position_def)
  let ?s1 = "pause (s\<lparr>wpm := v\<rparr>)"
  have "inv_timers ?s1" using t by (simp add: inv_timers_pause)
  moreover have "inv_position ?s1" "hasStarted ?s1" using p hs by (simp_all add: inv_position_pause)
  ultimately show ?thesis
    using True by (simp add: onWpmChange_def Let_def inv_timers_play inv_position_play)
qed

lemma inv_range_onWpmChange:
  assumes r: "inv_range s" and p: "inv_position s"
  shows "inv_range (onWpmChange v s)"
proof (cases "isPlaying s")
  case False
  then show ?thesis using r by (simp add: onWpmChange_def Let_def)
next
  case True
  then have hs: "hasStarted s" using p by (simp add: inv_position_def)
  let ?s1 = "pause (s\<lparr>wpm := v\<rparr>)"
  have "inv_range ?s1" using r by (simp add: inv_range_pause)
  moreover have "currentWordIndex ?s1
      < paragraphEndIndex (paragraphs ?s1 ! nat (currentParagraphIndex ?s1))"
    using r hs True by (simp add: inv_range_def)
  ultimately have "inv_range (play ?s1)" by (rule inv_range_play)
  then show ?thesis using True by (simp add: onWpmChange_def Let_def)
qed

subsection \<open>Every event keeps the invariants\<close>

lemma inv_step:
  assumes t: "inv_timers s" and p: "inv_position s"
  shows "inv_timers (step e s) \<and> inv_position (step e s)"
proof (cases e)
  case (Input x)
  have "inv_timers (s\<lparr>textInput := x\<rparr>)" "inv_position (s\<lparr>textInput := x\<rparr>)"
    using t p by simp_all
  then have "inv_timers (onTextChange (s\<lparr>textInput := x\<rparr>))
           \<and> inv_position (onTextChange (s\<lparr>textInput := x\<rparr>))"
    using inv_reset [of "s\<lparr>textInput := x\<rparr>"]
    by (cases "hasStarted s") (simp_all add: onTextChange_def Let_def)
  then show ?thesis using Input by (simp add: step_def)
next
  case (WpmChange v)
  then show ?thesis using inv_onWpmChange [OF t p] by (simp add: step_def)
next
  case (PauseChange v)
  then show ?thesis using t p by (simp add: step_def onPauseChange_def)
next
  case ReaderClick
  then show ?thesis using inv_position_handleReaderClick [OF t p] by (simp add: step_def)
next
  case NavPrevClick
  then show ?thesis using inv_navigatePrev [OF t p] by (simp add: step_def)
next
  case NavNextClick
  then show ?thesis using inv_navigateNext [OF t p] by (simp add: step_def)
next
  case (Keydown inText k)
  show ?thesis
  proof (cases inText)
    case True
    then show ?thesis using Keydown t p by (simp add: step_def onGlobalKeydown_def)
  next
    case False
    show ?thesis
    proof (cases k)
      case Space
      then show ?thesis
        using Keydown False inv_position_handleReaderClick [OF t p]
        by (simp add: step_def onGlobalKeydown_def)
    next
      case ArrowLeft
      then show ?thesis using Keydown False inv_arrowLeft [OF t p] by (simp add: step_def)
    next
      case ArrowRight
      then show ?thesis using Keydown False inv_arrowRight [OF t p] by (simp add: step_def)
    next
      case KeyR
      then show ?thesis
        using Keydown False inv_restartCurrentParagraph [OF t p] t p
        by (cases "hasStarted s") (simp_all add: step_def onGlobalKeydown_def)
    next
      case OtherKey
      then show ?thesis using Keydown False t p by (simp add: step_def onGlobalKeydown_def)
    qed
  qed
next
  case (TimerFires i)
  then show ?thesis using inv_fire [OF t p] by (simp add: step_def)
qed

lemma inv_range_step:
  assumes t: "inv_timers s" and p: "inv_position s" and r: "inv_range s"
    and ns: "\<not> is_step e"
  shows "inv_range (step e s)"
proof (cases e)
  case (Input x)
  have "inv_range (onTextChange (s\<lparr>textInput := x\<rparr>))"
    using inv_reset [of "s\<lparr>textInput := x\<rparr>"] t r
    by (cases "hasStarted s") (simp_all add: onTextChange_def Let_def)
  then show ?thesis using Input by (simp add: step_def)
next
  case (WpmChange v)
  then show ?thesis using inv_range_onWpmChange [OF r p] by (simp add: step_def)
next
  case (PauseChange v)
  then show ?thesis using r by (simp add: step_def onPauseChange_def)
next
  case ReaderClick
  then show ?thesis using inv_handleReaderClick [OF t p r] by (simp add: step_def)
next
  case NavPrevClick
  then show ?thesis using ns by simp
next
  case NavNextClick
  then show ?thesis using ns by simp
next
  case (Keydown inText k)
  show ?thesis
  proof (cases inText)
    case True
    then show ?thesis using Keydown r by (simp add: step_def onGlobalKeydown_def)
  next
    case False
    show ?thesis
    proof (cases k)
      case Space
      then show ?thesis
        using Keydown False inv_handleReaderClick [OF t p r]
        by (simp add: step_def onGlobalKeydown_def)
    next
      case ArrowLeft
      then show ?thesis using Keydown False ns by simp
    next
      case ArrowRight
      then show ?thesis using Keydown False ns by simp
    next
      case KeyR
      then show ?thesis
        using Keydown False inv_restartCurrentParagraph [OF t p] r
        by (cases "hasStarted s") (simp_all add: step_def onGlobalKeydown_def)
    next
      case OtherKey
      then show ?thesis using Keydown False r by (simp add: step_def onGlobalKeydown_def)
    qed
  qed
next
  case (TimerFires i)
  then show ?thesis using inv_range_fire [OF t p r] by (simp add: step_def)
qed

lemma inv_initial:
  "inv_timers (initial w p t) \<and> inv_position (initial w p t) \<and> inv_range (initial w p t)"
  by (simp add: initial_def inv_timers_def inv_position_def inv_range_def)

lemma inv_run:
  "inv_timers s \<Longrightarrow> inv_position s \<Longrightarrow> inv_timers (run evs s) \<and> inv_position (run evs s)"
proof (induction evs arbitrary: s)
  case Nil
  then show ?case by simp
next
  case (Cons e es)
  from inv_step [OF Cons.prems] Cons.IH show ?case by simp
qed

lemma inv_range_run:
  "inv_timers s \<Longrightarrow> inv_position s \<Longrightarrow> inv_range s \<Longrightarrow> list_all (\<lambda>e. \<not> is_step e) evs \<Longrightarrow>
   inv_range (run evs s)"
proof (induction evs arbitrary: s)
  case Nil
  then show ?case by simp
next
  case (Cons e es)
  have ns: "\<not> is_step e" and rest: "list_all (\<lambda>e. \<not> is_step e) es"
    using Cons.prems(4) by simp_all
  from inv_step [OF Cons.prems(1,2), of e]
    inv_range_step [OF Cons.prems(1,2,3) ns] Cons.IH rest
  show ?case by simp
qed

lemma reachable_inv:
  "inv_timers (run evs (initial w p t)) \<and> inv_position (run evs (initial w p t))"
  using inv_run inv_initial by blast

lemma reachable_inv_range:
  "list_all (\<lambda>e. \<not> is_step e) evs \<Longrightarrow> inv_range (run evs (initial w p t))"
  using inv_range_run inv_initial by blast

subsection \<open>A run over two paragraphs\<close>

lemma parsed_two:
  "parsedParagraphs twoParagraphs =
     [\<lparr>p_index = 0, p_text = js ''a b'', p_words = [js ''a'', js ''b''], startWordIndex = 0\<rparr>,
      \<lparr>p_index = 1, p_text = js ''c d'', p_words = [js ''c'', js ''d''], startWordIndex = 2\<rparr>]"
proof -
  have a: "paragraphTexts twoParagraphs = [js ''a b'', js ''c d'']"
    by (simp add: twoParagraphs_def paragraphTexts_def js_def replaceCR_def trim_def is_space_def)
  have b: "extractWords (js ''a b'') = [js ''a'', js ''b'']"
    by (simp add: extractWords_def js_def trim_def is_space_def)
  have c: "extractWords (js ''c d'') = [js ''c'', js ''d'']"
    by (simp add: extractWords_def js_def trim_def is_space_def)
  show ?thesis
    by (simp add: parsedParagraphs_def a enumerate_eq_zip makeParagraph_def b c upt_rec)
qed

lemma trim_two: "trim twoParagraphs \<noteq> []"
  by (simp add: twoParagraphs_def js_def trim_def is_space_def)

lemma started_two:
  "run [ReaderClick] (initial 300 200 twoParagraphs) =
    (initial 300 200 twoParagraphs)
      \<lparr>words := [js ''a'', js ''b'', js ''c'', js ''d''],
       paragraphs := parsedParagraphs twoParagraphs,
       hasStarted := True, isPlaying := True,
       display := splitWordAtORP (js ''a''),
       statusHidden := True,
       intervalId := Some 1,
       timers := [\<lparr>timerId = 1, delay = 200, callback = Advance\<rparr>],
       nextTimerId := 2\<rparr>"
  using trim_two
  by (simp add: step_def handleReaderClick_def startReading_def initial_def parseText_def
      parsed_two flattenWords_def displayCurrentWord_def at_index_def play_def hideStatus_def
      scheduleNextWord_def needsSentencePause_def to_string_def isSentenceEnd_def
      is_terminator_def is_quote_def setTimeout_def baseInterval_def js_def Let_def)

lemma paused_at_break_two:
  "run [ReaderClick, TimerFires 1, TimerFires 2] (initial 300 200 twoParagraphs) =
    (initial 300 200 twoParagraphs)
      \<lparr>words := [js ''a'', js ''b'', js ''c'', js ''d''],
       paragraphs := parsedParagraphs twoParagraphs,
       currentWordIndex := 2,
       hasStarted := True, isPlaying := False, isPaused := True,
       display := splitWordAtORP (js ''b''),
       statusText := EndOfParagraph, statusBreak := True, statusHidden := False,
       intervalId := None,
       timers := [],
       nextTimerId := 3\<rparr>"
proof -
  have "run [ReaderClick, TimerFires 1, TimerFires 2] (initial 300 200 twoParagraphs)
        = run [TimerFires 1, TimerFires 2] (run [ReaderClick] (initial 300 200 twoParagraphs))"
    by simp
  also have "\<dots> = (initial 300 200 twoParagraphs)
      \<lparr>words := [js ''a'', js ''b'', js ''c'', js ''d''],
       paragraphs := parsedParagraphs twoParagraphs,
       currentWordIndex := 2,
       hasStarted := True, isPlaying := False, isPaused := True,
       display := splitWordAtORP (js ''b''),
       statusText := EndOfParagraph, statusBreak := True, statusHidden := False,
       intervalId := None,
       timers := [],
       nextTimerId := 3\<rparr>"
    unfolding started_two
    by (simp add: step_def fire_def clearTimeout_def run_callback_def advanceWord_def
      initial_def parsed_two at_index_def paragraphEndIndex_def displayCurrentWord_def
      scheduleNextWord_def needsSentencePause_def to_string_def isSentenceEnd_def
      is_terminator_def is_quote_def setTimeout_def baseInterval_def js_def Let_def
      pause_def updateStatus_def showParagraphBreak_def showEndOfText_def)
  finally show ?thesis .
qed

text \<open>
  Claim C4, as stated, fails at a paragraph break: after the last word of the first of two
  paragraphs the word index is 2, the first word of the second paragraph, while the
  paragraph index is still 0.
\<close>

theorem paragraph_break_breaks_position_invariant:
  "hasStarted (run [ReaderClick, TimerFires 1, TimerFires 2] (initial 300 200 twoParagraphs))
   \<and> currentWordIndex
        (run [ReaderClick, TimerFires 1, TimerFires 2] (initial 300 200 twoParagraphs)) = 2
   \<and> currentParagraphIndex
        (run [ReaderClick, TimerFires 1, TimerFires 2] (initial 300 200 twoParagraphs)) = 0
   \<and> \<not> spec_position_invariant
        (run [ReaderClick, TimerFires 1, TimerFires 2] (initial 300 200 twoParagraphs))"
  unfolding paused_at_break_two
  by (simp add: spec_position_invariant_def initial_def parsed_two at_index_def
      paragraphEndIndex_def)

text \<open>
  Claim C4, amended. In every state reached from the initial state by events of the page,
  once reading has started, the word index lies between 0 and the number of words, which
  are the paragraphs' words in order, and the paragraph index is the index of a paragraph.
  As long as no event has stepped by a word, the word index lies in the range of the
  current paragraph or is its end index (the pause at a paragraph break or at the end of
  the text), and it is below the end index while playing.
\<close>

theorem position_invariant:
  assumes "s = run evs (initial w p t)" and "hasStarted s"
  shows "0 \<le> currentWordIndex s \<and> currentWordIndex s \<le> int (length (words s))
     \<and> words s = concat (map p_words (paragraphs s))
     \<and> 0 \<le> currentParagraphIndex s
     \<and> currentParagraphIndex s < int (length (paragraphs s))
     \<and> (list_all (\<lambda>e. \<not> is_step e) evs \<longrightarrow>
          startWordIndex (paragraphs s ! nat (currentParagraphIndex s)) \<le> currentWordIndex s
          \<and> currentWordIndex s
              \<le> paragraphEndIndex (paragraphs s ! nat (currentParagraphIndex s))
          \<and> (isPlaying s \<longrightarrow>
                currentWordIndex s
                  < paragraphEndIndex (paragraphs s ! nat (currentParagraphIndex s))))"
proof -
  have "inv_position s" using assms(1) reachable_inv by simp
  then have b: "wf_model (paragraphs s) (words s)
     \<and> 0 \<le> currentWordIndex s \<and> currentWordIndex s \<le> int (length (words s))
     \<and> 0 \<le> currentParagraphIndex s
     \<and> currentParagraphIndex s < int (length (paragraphs s))"
    using assms(2) by (simp add: inv_position_def)
  then have "words s = concat (map p_words (paragraphs s))"
    by (simp add: wf_model_def flattenWords_def)
  with b have a: "0 \<le> currentWordIndex s \<and> currentWordIndex s \<le> int (length (words s))
     \<and> words s = concat (map p_words (paragraphs s))
     \<and> 0 \<le> currentParagraphIndex s
     \<and> currentParagraphIndex s < int (length (paragraphs s))"
    by blast
  have "list_all (\<lambda>e. \<not> is_step e) evs \<Longrightarrow> inv_range s"
    using assms(1) reachable_inv_range by simp
  then have "list_all (\<lambda>e. \<not> is_step e) evs \<longrightarrow>
          startWordIndex (paragraphs s ! nat (currentParagraphIndex s)) \<le> currentWordIndex s
          \<and> currentWordIndex s
              \<le> paragraphEndIndex (paragraphs s ! nat (currentParagraphIndex s))
          \<and> (isPlaying s \<longrightarrow>
                currentWordIndex s
                  < paragraphEndIndex (paragraphs s ! nat (currentParagraphIndex s)))"
    using assms(2) by (simp add: inv_range_def)
  with a show ?thesis by blast
qed

theorem position_invariant_witness:
  "hasStarted (run [ReaderClick, TimerFires 1, TimerFires 2] (initial 300 200 twoParagraphs))
   \<and> list_all (\<lambda>e. \<not> is_step e) [ReaderClick, TimerFires 1, TimerFires 2]
   \<and> currentWordIndex
        (run [ReaderClick, TimerFires 1, TimerFires 2] (initial 300 200 twoParagraphs))
      \<le> paragraphEndIndex
           (paragraphs
              (run [ReaderClick, TimerFires 1, TimerFires 2] (initial 300 200 twoParagraphs))
            ! nat (currentParagraphIndex
                (run [ReaderClick, TimerFires 1, TimerFires 2]
                   (initial 300 200 twoParagraphs))))
   \<and> currentParagraphIndex
        (run [ReaderClick, TimerFires 1, TimerFires 2] (initial 300 200 twoParagraphs))
      < int (length (paragraphs
           (run [ReaderClick, TimerFires 1, TimerFires 2] (initial 300 200 twoParagraphs))))"
proof -
  have h: "hasStarted
      (run [ReaderClick, TimerFires 1, TimerFires 2] (initial 300 200 twoParagraphs))"
    unfolding paused_at_break_two by simp
  have l: "list_all (\<lambda>e. \<not> is_step e) [ReaderClick, TimerFires 1, TimerFires 2]"
    by simp
  show ?thesis
    using position_invariant [OF refl h] h l by blast
qed

end
